theory Spec2Isabelle
  imports Main "HOL-Library.Monad_Syntax" "HOL-Library.Word"
begin



section \<open>JavaScript strings\<close>

text \<open>
  A JavaScript string is a sequence of 16-bit code units; \<open>length\<close>, \<open>slice\<close> and the
  regular expressions of the program all count code units.  \<open>ustr\<close> embeds an ASCII
  literal.
\<close>

type_synonym jschar = "16 word"
type_synonym jsstring = "jschar list"

definition ustr :: "string \<Rightarrow> jsstring" where
  "ustr s = map (\<lambda>c. of_nat (of_char c)) s"

text \<open>\<open>s.replace(/c/g, r)\<close> for a one-character pattern: every occurrence of \<open>c\<close> becomes \<open>r\<close>.\<close>

definition replaceAllChar :: "jschar \<Rightarrow> jsstring \<Rightarrow> jsstring \<Rightarrow> jsstring" where
  "replaceAllChar c r s = concat (map (\<lambda>x. if x = c then r else [x]) s)"

text \<open>\<open>xs.join(sep)\<close> on an array of strings.\<close>

fun join :: "jsstring \<Rightarrow> jsstring list \<Rightarrow> jsstring" where
  "join sep [] = []"
| "join sep [x] = x"
| "join sep (x # y # ys) = x @ sep @ join sep (y # ys)"

text \<open>Decimal digits of a natural number (\<open>String(i)\<close> for an array index or a length).\<close>

fun natToString :: "nat \<Rightarrow> jsstring" where
  "natToString n =
     (if n < 10 then [of_nat (48 + n)]
      else natToString (n div 10) @ [of_nat (48 + n mod 10)])"

declare natToString.simps [simp del]

section \<open>Values returned by tools\<close>

text \<open>
  A tool may resolve to any JavaScript value.  The model has the primitives (symbols
  included) and objects held in a heap, so that a value may be shared or cyclic; an
  address is an index into the heap.  Of an object the model keeps what
  \<open>sanitizeObservation\<close> can observe:

    \<^item> its kind: an ordinary object with its enumerable own string-keyed properties in
      enumeration order, an array with its elements, a function, or a Number, String,
      Boolean or BigInt wrapper object with the primitive it wraps;
    \<^item> for each property or element what reading it gives: the value of a data property,
      or what the getter of an accessor property returns or raises;
    \<^item> the values of its other properties (not enumerable, keyed by a symbol, or a
      property of an array that is not an element), which the serialiser never reads;
    \<^item> its \<open>toJSON\<close> method if it has a callable one (its own or inherited, as for a
      Date): what the call returns or raises for a key;
    \<^item> what \<open>String(obj)\<close> returns or raises.

  Getters and methods are taken to return or to raise, and to return values held in the
  heap: one that runs forever, or that makes a new object at every call without end, is
  outside the model.

  The type \<open>'n\<close> stands for the IEEE doubles, which the model leaves abstract: what the
  program needs from them, and the depth of the engine's stack, is collected in
  \<open>numops\<close>.
\<close>

datatype 'n jsvalue =
    VUndefined
  | VNull
  | VBool bool
  | VNum 'n
  | VBigInt int
  | VStr jsstring
  | VSymbol jsstring
  | VRef nat

datatype exn = TypeError | SyntaxError | RangeError | Rejected jsstring

datatype 'n slot =
    Data "'n jsvalue"
  | Getter "exn + 'n jsvalue"

datatype 'n jsbody =
    OArray "'n slot list"
  | OObject "(jsstring \<times> 'n slot) list"
  | OFunction
  | OBoxed "'n jsvalue"

record 'n jsobject =
  obj_body :: "'n jsbody"
  obj_others :: "'n jsvalue list"
  obj_toJSON :: "(jsstring \<Rightarrow> exn + 'n jsvalue) option"
  obj_string :: "exn + jsstring"

type_synonym 'n heap = "'n jsobject list"

text \<open>
  \<open>stack_limit\<close> is the number of nested objects the engine's stack lets the serialiser
  descend into: one more is a RangeError.
\<close>

record 'n numops =
  num_of_literal :: "jsstring \<Rightarrow> 'n"
  num_of_bigint :: "int \<Rightarrow> 'n"
  num_to_string :: "'n \<Rightarrow> jsstring"
  num_is_finite :: "'n \<Rightarrow> bool"
  num_truthy :: "'n \<Rightarrow> bool"
  stack_limit :: nat

definition lookupObj :: "'n heap \<Rightarrow> nat \<Rightarrow> 'n jsobject option" where
  "lookupObj h a = (if a < length h then Some (h ! a) else None)"

text \<open>An object literal \<open>{k1: v1, ...}\<close>.\<close>

definition plainObject :: "(jsstring \<times> 'n jsvalue) list \<Rightarrow> 'n jsobject" where
  "plainObject props =
     \<lparr>obj_body = OObject (map (\<lambda>(k, v). (k, Data v)) props), obj_others = [],
      obj_toJSON = None, obj_string = Inr (ustr ''[object Object]'')\<rparr>"

text \<open>Decimal digits of an integer (\<open>String\<close> of a BigInt).\<close>

definition intToString :: "int \<Rightarrow> jsstring" where
  "intToString i = (if i < 0 then ustr ''-'' @ natToString (nat (- i)) else natToString (nat i))"

section \<open>JSON.stringify\<close>

text \<open>Four lower-case hexadecimal digits of a code unit, as in \<open>\uXXXX\<close>.\<close>

definition hexDigit :: "nat \<Rightarrow> jschar" where
  "hexDigit d = (if d < 10 then of_nat (48 + d) else of_nat (87 + d))"

definition unicodeEscape :: "jschar \<Rightarrow> jsstring" where
  "unicodeEscape c =
     (let n = unat c in
      [0x5C, 0x75, hexDigit (n div 4096), hexDigit (n div 256 mod 16),
       hexDigit (n div 16 mod 16), hexDigit (n mod 16)])"

definition isHighSurrogate :: "jschar \<Rightarrow> bool" where
  "isHighSurrogate c = (0xD800 \<le> c \<and> c \<le> 0xDBFF)"

definition isLowSurrogate :: "jschar \<Rightarrow> bool" where
  "isLowSurrogate c = (0xDC00 \<le> c \<and> c \<le> 0xDFFF)"

text \<open>
  QuoteJSONString of ECMA-262: the short escapes, \<open>\uXXXX\<close> for the other control
  characters and for surrogates that are not part of a pair, every other code unit as it is.
\<close>

definition quoteOne :: "jschar \<Rightarrow> jsstring" where
  "quoteOne c =
     (if c = 0x08 then [0x5C, 0x62]
      else if c = 0x09 then [0x5C, 0x74]
      else if c = 0x0A then [0x5C, 0x6E]
      else if c = 0x0C then [0x5C, 0x66]
      else if c = 0x0D then [0x5C, 0x72]
      else if c = 0x22 then [0x5C, 0x22]
      else if c = 0x5C then [0x5C, 0x5C]
      else if c < 0x20 \<or> isHighSurrogate c \<or> isLowSurrogate c then unicodeEscape c
      else [c])"

fun quoteChars :: "jsstring \<Rightarrow> jsstring" where
  "quoteChars [] = []"
| "quoteChars [c] = quoteOne c"
| "quoteChars (c # d # ds) =
     (if isHighSurrogate c \<and> isLowSurrogate d then c # d # quoteChars ds
      else quoteOne c @ quoteChars (d # ds))"

definition quoteJSONString :: "jsstring \<Rightarrow> jsstring" where
  "quoteJSONString s = [0x22] @ quoteChars s @ [0x22]"

text \<open>
  Results of operations that may raise: \<open>Inl\<close> is the exception; the outer \<open>None\<close>
  is a computation that ran out of fuel.
\<close>

type_synonym 'a res = "(exn + 'a) option"

definition bindR :: "'a res \<Rightarrow> ('a \<Rightarrow> 'b res) \<Rightarrow> 'b res" where
  "bindR m f = (case m of None \<Rightarrow> None | Some (Inl e) \<Rightarrow> Some (Inl e) | Some (Inr x) \<Rightarrow> f x)"

lemma bindR_cong [fundef_cong]:
  "m = m' \<Longrightarrow> (\<And>x. m' = Some (Inr x) \<Longrightarrow> f x = f' x) \<Longrightarrow> bindR m f = bindR m' f'"
  by (auto simp: bindR_def split: option.splits sum.splits)

text \<open>
  SerializeJSONProperty, SerializeJSONObject and SerializeJSONArray of ECMA-262 with a
  replacer function and a gap.  The replacer carries a state \<open>'s\<close> (the closure's
  variables).  \<open>stack\<close> holds the objects being serialised.
\<close>

type_synonym ('n, 's) replacer = "'s \<Rightarrow> jsstring \<Rightarrow> 'n jsvalue \<Rightarrow> 'n jsvalue \<times> 's"

record ('n, 's) serializer =
  ser_ops :: "'n numops"
  ser_heap :: "'n heap"
  ser_replacer :: "('n, 's) replacer"
  ser_gap :: jsstring

definition wrapJSON :: "jschar \<Rightarrow> jschar \<Rightarrow> jsstring \<Rightarrow> jsstring \<Rightarrow> jsstring list \<Rightarrow> jsstring" where
  "wrapJSON opn cls stepback gap partial =
     (if partial = [] then [opn, cls]
      else if gap = [] then [opn] @ join (ustr '','') partial @ [cls]
      else [opn, 0x0A] @ (stepback @ gap)
           @ join ([0x2C, 0x0A] @ (stepback @ gap)) partial
           @ [0x0A] @ stepback @ [cls])"

definition memberJSON :: "jsstring \<Rightarrow> jsstring \<Rightarrow> jsstring \<Rightarrow> jsstring" where
  "memberJSON gap k strP =
     quoteJSONString k @ ustr '':'' @ (if gap = [] then [] else ustr '' '') @ strP"

text \<open>The keys and properties an object or array is serialised from, in order.\<close>

definition entriesOf :: "'n jsobject \<Rightarrow> (jsstring \<times> 'n slot) list" where
  "entriesOf obj =
     (case obj_body obj of
        OObject props \<Rightarrow> props
      | OArray elems \<Rightarrow> zip (map natToString [0 ..< length elems]) elems
      | _ \<Rightarrow> [])"

text \<open>
  The text of an object or array from the serialised entries: a property whose value
  serialises to \<open>undefined\<close> is left out of an object and is \<open>null\<close> in an array.
\<close>

definition wrapObj ::
    "'n jsobject \<Rightarrow> jsstring \<Rightarrow> jsstring \<Rightarrow> (jsstring \<times> jsstring option) list \<Rightarrow> jsstring" where
  "wrapObj obj stepback gap strs =
     (case obj_body obj of
        OArray elems \<Rightarrow>
          wrapJSON 0x5B 0x5D stepback gap
            (map (\<lambda>(k, strP). case strP of None \<Rightarrow> ustr ''null'' | Some s \<Rightarrow> s) strs)
      | _ \<Rightarrow>
          wrapJSON 0x7B 0x7D stepback gap
            (concat (map (\<lambda>(k, strP). case strP of None \<Rightarrow> [] | Some s \<Rightarrow> [memberJSON gap k s]) strs)))"

text \<open>
  The text of a primitive; \<open>None\<close> is \<open>undefined\<close> (the value is not serialised).  A
  BigInt that reaches the serialiser is a TypeError.
\<close>

definition serializePrimitive :: "'n numops \<Rightarrow> 'n jsvalue \<Rightarrow> exn + jsstring option" where
  "serializePrimitive ops v =
     (case v of
        VNull \<Rightarrow> Inr (Some (ustr ''null''))
      | VBool b \<Rightarrow> Inr (Some (if b then ustr ''true'' else ustr ''false''))
      | VNum n \<Rightarrow> Inr (Some (if num_is_finite ops n then num_to_string ops n else ustr ''null''))
      | VBigInt i \<Rightarrow> Inl TypeError
      | VStr s \<Rightarrow> Inr (Some (quoteJSONString s))
      | _ \<Rightarrow> Inr None)"

text \<open>Reading a property: \<open>Get(holder, key)\<close>.\<close>

definition readSlot :: "'n slot \<Rightarrow> exn + 'n jsvalue" where
  "readSlot s = (case s of Data v \<Rightarrow> Inr v | Getter g \<Rightarrow> g)"

text \<open>
  Step 2 of SerializeJSONProperty: an object with a callable \<open>toJSON\<close> is replaced by
  what the method returns for the key.  (\<open>BigInt.prototype\<close> has no \<open>toJSON\<close> unless
  the page adds one.)
\<close>

definition callToJSON :: "'n heap \<Rightarrow> jsstring \<Rightarrow> 'n jsvalue \<Rightarrow> exn + 'n jsvalue" where
  "callToJSON h key v =
     (case v of
        VRef a \<Rightarrow>
          (case lookupObj h a of
             None \<Rightarrow> Inl TypeError
           | Some obj \<Rightarrow> (case obj_toJSON obj of None \<Rightarrow> Inr v | Some f \<Rightarrow> f key))
      | _ \<Rightarrow> Inr v)"

text \<open>
  What is left to do with a property once it has been read, passed to \<open>toJSON\<close> and to
  the replacer: it is a leaf with its text (a primitive, a wrapper object as the primitive
  it wraps, a function or symbol as \<open>undefined\<close>), or an object or array to descend into.
  Descending deeper than the stack allows is a RangeError, and meeting an object that is
  being serialised is the TypeError of a cyclic structure.
\<close>

datatype 'n target = Leaf "jsstring option" | Node nat "'n jsobject"

definition classify ::
    "('n, 's) serializer \<Rightarrow> nat list \<Rightarrow> 'n jsvalue \<Rightarrow> exn + 'n target" where
  "classify c stack v =
     (case v of
        VRef a \<Rightarrow>
          (case lookupObj (ser_heap c) a of
             None \<Rightarrow> Inl TypeError
           | Some obj \<Rightarrow>
               (case obj_body obj of
                  OFunction \<Rightarrow> Inr (Leaf None)
                | OBoxed p \<Rightarrow> map_sum id Leaf (serializePrimitive (ser_ops c) p)
                | _ \<Rightarrow>
                    if stack_limit (ser_ops c) \<le> length stack then Inl RangeError
                    else if a \<in> set stack then Inl TypeError
                    else Inr (Node a obj)))
      | _ \<Rightarrow> map_sum id Leaf (serializePrimitive (ser_ops c) v))"

definition prepare ::
    "('n, 's) serializer \<Rightarrow> nat list \<Rightarrow> 's \<Rightarrow> jsstring \<Rightarrow> 'n slot \<Rightarrow> exn + 'n target \<times> 's" where
  "prepare c stack st key s =
     (case readSlot s of
        Inl e \<Rightarrow> Inl e
      | Inr v0 \<Rightarrow>
          (case callToJSON (ser_heap c) key v0 of
             Inl e \<Rightarrow> Inl e
           | Inr v1 \<Rightarrow>
               (case ser_replacer c st key v1 of
                  (v, st1) \<Rightarrow> map_sum id (\<lambda>t. (t, st1)) (classify c stack v))))"

text \<open>
  The first argument is fuel, spent on each descent into an object; \<open>None\<close> is a
  computation that ran out of it.
\<close>

fun serializeProperty ::
    "nat \<Rightarrow> ('n, 's) serializer \<Rightarrow> nat list \<Rightarrow> jsstring \<Rightarrow> 's \<Rightarrow> jsstring \<Rightarrow> 'n slot
      \<Rightarrow> (jsstring option \<times> 's) res"
  and serializeEntries ::
    "nat \<Rightarrow> ('n, 's) serializer \<Rightarrow> nat list \<Rightarrow> jsstring \<Rightarrow> 's \<Rightarrow> (jsstring \<times> 'n slot) list
      \<Rightarrow> ((jsstring \<times> jsstring option) list \<times> 's) res"
where
  "serializeProperty 0 c stack indent st key s = None"
| "serializeProperty (Suc fuel) c stack indent st key s =
     (case prepare c stack st key s of
        Inl e \<Rightarrow> Some (Inl e)
      | Inr (Leaf r, st1) \<Rightarrow> Some (Inr (r, st1))
      | Inr (Node a obj, st1) \<Rightarrow>
          bindR (serializeEntries fuel c (a # stack) (indent @ ser_gap c) st1 (entriesOf obj))
            (\<lambda>(strs, st2). Some (Inr (Some (wrapObj obj indent (ser_gap c) strs), st2))))"
| "serializeEntries fuel c stack indent st [] = Some (Inr ([], st))"
| "serializeEntries fuel c stack indent st ((k, s) # ps) =
     bindR (serializeProperty fuel c stack indent st k s)
       (\<lambda>(strP, st1).
          bindR (serializeEntries fuel c stack indent st1 ps)
            (\<lambda>(rest, st2). Some (Inr ((k, strP) # rest, st2))))"

text \<open>
  \<open>JSON.stringify(value, replacer, gap)\<close>: the value is serialised as the property \<open>""\<close>
  of a wrapper object.  No object is on the stack twice, so the depth of the recursion is
  at most the number of objects of the heap.
\<close>

definition JSON_stringify ::
    "'n numops \<Rightarrow> 'n heap \<Rightarrow> ('n, 's) replacer \<Rightarrow> 's \<Rightarrow> jsstring \<Rightarrow> 'n jsvalue
      \<Rightarrow> (jsstring option) res" where
  "JSON_stringify ops h rep st gap v =
     bindR (serializeProperty (Suc (length h))
              \<lparr>ser_ops = ops, ser_heap = h, ser_replacer = rep, ser_gap = gap\<rparr> [] [] st [] (Data v))
       (\<lambda>(r, st'). Some (Inr r))"

section \<open>The observation sanitizer (agent.js)\<close>

text \<open>
  The three replacements of \<open>escAndTrunc\<close>, as they are written in the source.
\<close>

definition escapeHtml :: "jsstring \<Rightarrow> jsstring" where
  "escapeHtml s =
     replaceAllChar 0x3E (ustr ''>'')
       (replaceAllChar 0x3C (ustr ''<'')
          (replaceAllChar 0x26 (ustr ''&'') s))"

text \<open>\<open>escAndTrunc\<close>: the argument is \<open>None\<close> when it is \<open>undefined\<close>.\<close>

definition ellipsis :: jschar where
  "ellipsis = 0x2026"

definition escAndTrunc :: "nat \<Rightarrow> jsstring option \<Rightarrow> jsstring" where
  "escAndTrunc limit s0 =
     (let s = (case s0 of Some s \<Rightarrow> s | None \<Rightarrow> []);
          safe = escapeHtml s
      in if length safe > limit then take limit safe @ [ellipsis] else safe)"

text \<open>
  The replacer of \<open>sanitizeObservation\<close>; its state is the set \<open>seen\<close>.  \<open>typeof val\<close>
  is \<open>'object'\<close> for every object that is not a function.
\<close>

definition circularMarker :: jsstring where
  "circularMarker = ustr ''[Circular]''"

definition isFunction :: "'n heap \<Rightarrow> nat \<Rightarrow> bool" where
  "isFunction h a =
     (case lookupObj h a of
        None \<Rightarrow> False
      | Some obj \<Rightarrow> (case obj_body obj of OFunction \<Rightarrow> True | _ \<Rightarrow> False))"

definition seenReplacer :: "'n numops \<Rightarrow> 'n heap \<Rightarrow> ('n, nat set) replacer" where
  "seenReplacer ops h seen key val =
     (case val of
        VBigInt i \<Rightarrow> (VNum (num_of_bigint ops i), seen)
      | VRef a \<Rightarrow>
          (if isFunction h a then (val, seen)
           else if a \<in> seen then (VStr circularMarker, seen)
           else (val, insert a seen))
      | _ \<Rightarrow> (val, seen))"

text \<open>\<open>String(value)\<close>.\<close>

definition toStringValue :: "'n numops \<Rightarrow> 'n heap \<Rightarrow> 'n jsvalue \<Rightarrow> exn + jsstring" where
  "toStringValue ops h v =
     (case v of
        VUndefined \<Rightarrow> Inr (ustr ''undefined'')
      | VNull \<Rightarrow> Inr (ustr ''null'')
      | VBool b \<Rightarrow> Inr (if b then ustr ''true'' else ustr ''false'')
      | VNum n \<Rightarrow> Inr (num_to_string ops n)
      | VBigInt i \<Rightarrow> Inr (intToString i)
      | VStr s \<Rightarrow> Inr s
      | VSymbol d \<Rightarrow> Inr (ustr ''Symbol('' @ d @ ustr '')'')
      | VRef a \<Rightarrow> (case lookupObj h a of None \<Rightarrow> Inl TypeError | Some obj \<Rightarrow> obj_string obj))"

text \<open>
  \<open>sanitizeObservation(value)\<close> with \<open>limit = this.obsTruncateChars\<close>.  Whatever the
  serialiser raises is caught, and the value is then written with \<open>String\<close>; if that
  raises too the result is the empty string.
\<close>

definition sanitizeObservation ::
    "'n numops \<Rightarrow> nat \<Rightarrow> 'n heap \<Rightarrow> 'n jsvalue \<Rightarrow> jsstring option" where
  "sanitizeObservation ops limit h v =
     (case v of
        VUndefined \<Rightarrow> Some []
      | VNull \<Rightarrow> Some []
      | VStr s \<Rightarrow> Some (escAndTrunc limit (Some s))
      | VNum n \<Rightarrow> Some (escAndTrunc limit (Some (num_to_string ops n)))
      | VBool b \<Rightarrow> Some (escAndTrunc limit (Some (if b then ustr ''true'' else ustr ''false'')))
      | _ \<Rightarrow>
          (case JSON_stringify ops h (seenReplacer ops h) {} (ustr ''  '') v of
             None \<Rightarrow> None
           | Some (Inr json) \<Rightarrow> Some (escAndTrunc limit json)
           | Some (Inl e) \<Rightarrow>
               (case toStringValue ops h v of
                  Inr s \<Rightarrow> Some (escAndTrunc limit (Some s))
                | Inl e' \<Rightarrow> Some [])))"


text \<open>\<open>s.includes(m)\<close>: the string \<open>m\<close> occurs in \<open>s\<close>.\<close>

fun includesStr :: "jsstring \<Rightarrow> jsstring \<Rightarrow> bool" where
  "includesStr [] m = (m = [])"
| "includesStr (c # cs) m = (take (length m) (c # cs) = m \<or> includesStr cs m)"

text \<open>
  Plain data: every object is an ordinary object, an array or a function whose properties
  are data properties holding primitives or objects of the heap, and no object has a
  \<open>toJSON\<close> method.
\<close>

definition validValue :: "'n heap \<Rightarrow> 'n jsvalue \<Rightarrow> bool" where
  "validValue h v = (case v of VRef a \<Rightarrow> a < length h | _ \<Rightarrow> True)"

definition plainSlot :: "'n heap \<Rightarrow> 'n slot \<Rightarrow> bool" where
  "plainSlot h s = (case s of Data v \<Rightarrow> validValue h v | Getter g \<Rightarrow> False)"

definition plainObj :: "'n heap \<Rightarrow> 'n jsobject \<Rightarrow> bool" where
  "plainObj h obj =
     ((case obj_body obj of OBoxed p \<Rightarrow> False | _ \<Rightarrow> True)
      \<and> (case obj_toJSON obj of None \<Rightarrow> True | Some f \<Rightarrow> False)
      \<and> list_all (\<lambda>(k, s). plainSlot h s) (entriesOf obj))"

definition plainHeap :: "'n heap \<Rightarrow> bool" where
  "plainHeap h = list_all (plainObj h) h"

text \<open>
  A chain of references from the object \<open>x\<close>: each object holds the next one in an
  enumerable data property (or array element), and each object reached is an ordinary
  object or an array without a \<open>toJSON\<close> method.
\<close>

definition descends :: "'n jsobject \<Rightarrow> bool" where
  "descends obj = (case obj_body obj of OObject props \<Rightarrow> True | OArray elems \<Rightarrow> True | _ \<Rightarrow> False)"

definition holds :: "'n heap \<Rightarrow> nat \<Rightarrow> nat \<Rightarrow> bool" where
  "holds h x y =
     (case lookupObj h x of
        None \<Rightarrow> False
      | Some obj \<Rightarrow>
          list_ex (\<lambda>(k, s). case s of Data (VRef a) \<Rightarrow> a = y | _ \<Rightarrow> False) (entriesOf obj))"

definition ordinary :: "'n heap \<Rightarrow> nat \<Rightarrow> bool" where
  "ordinary h a =
     (case lookupObj h a of
        None \<Rightarrow> False
      | Some obj \<Rightarrow> descends obj \<and> (case obj_toJSON obj of None \<Rightarrow> True | Some f \<Rightarrow> False))"

fun chain :: "'n heap \<Rightarrow> nat \<Rightarrow> nat list \<Rightarrow> bool" where
  "chain h x [] = True"
| "chain h x (y # ys) = (holds h x y \<and> ordinary h y \<and> chain h y ys)"

text \<open>
  An instance of \<open>numops\<close> for the examples, none of which holds a number: it is not a
  model of the IEEE doubles.  Its numbers are the integers, written in decimal, a literal
  denotes its integer part, and the stack holds a thousand nested objects.
\<close>

definition intOfDigits :: "jsstring \<Rightarrow> int" where
  "intOfDigits s = foldl (\<lambda>n c. 10 * n + (uint c - 48)) 0 s"

definition intOfLiteral :: "jsstring \<Rightarrow> int" where
  "intOfLiteral s =
     (let isDig = (\<lambda>c. 0x30 \<le> c \<and> c \<le> 0x39) in
      if take 1 s = [0x2D] then - intOfDigits (takeWhile isDig (drop 1 s))
      else intOfDigits (takeWhile isDig s))"

definition intNumops :: "int numops" where
  "intNumops =
     \<lparr>num_of_literal = intOfLiteral, num_of_bigint = (\<lambda>i. i), num_to_string = intToString,
      num_is_finite = (\<lambda>n. True), num_truthy = (\<lambda>n. n \<noteq> 0), stack_limit = 1000\<rparr>"

text \<open>
  Example heaps: an object whose only property refers to the object itself; one with a
  long string in front of the self-reference; two objects that refer to each other; an
  object with a \<open>toJSON\<close> method and a property that refers to the object itself; and an
  array with a property \<open>self\<close>, which is not an element, that refers to the array.
\<close>

definition selfHeap :: "int heap" where
  "selfHeap = [plainObject [(ustr ''self'', VRef 0)]]"

definition longSelfHeap :: "int heap" where
  "longSelfHeap = [plainObject [(ustr ''a'', VStr (replicate 3000 0x78)), (ustr ''self'', VRef 0)]]"

definition pairHeap :: "int heap" where
  "pairHeap = [plainObject [(ustr ''b'', VRef 1)], plainObject [(ustr ''a'', VRef 0)]]"

definition toJSONHeap :: "int heap" where
  "toJSONHeap =
     [(plainObject [(ustr ''self'', VRef 0)]) \<lparr>obj_toJSON := Some (\<lambda>key. Inr (VStr (ustr ''x'')))\<rparr>]"

definition arrayPropHeap :: "int heap" where
  "arrayPropHeap =
     [\<lparr>obj_body = OArray [], obj_others = [VRef 0], obj_toJSON = None, obj_string = Inr []\<rparr>]"

text \<open>
  An object that refers to itself and to an empty object, for an engine whose stack has
  room for one nested object only.
\<close>

definition deepHeap :: "int heap" where
  "deepHeap = [plainObject [(ustr ''self'', VRef 0), (ustr ''deep'', VRef 1)], plainObject []]"

definition shallowNumops :: "int numops" where
  "shallowNumops = intNumops \<lparr>stack_limit := 1\<rparr>"


section \<open>Whitespace and trimming\<close>

text \<open>
  The characters matched by \<open>\s\<close> in a regular expression, which are also the ones
  removed by \<open>String.prototype.trim\<close> (WhiteSpace and LineTerminator of ECMA-262).
\<close>

definition isWS :: "jschar \<Rightarrow> bool" where
  "isWS c =
     (c = 0x09 \<or> c = 0x0A \<or> c = 0x0B \<or> c = 0x0C \<or> c = 0x0D \<or> c = 0x20 \<or> c = 0xA0
      \<or> c = 0x1680 \<or> (0x2000 \<le> c \<and> c \<le> 0x200A) \<or> c = 0x2028 \<or> c = 0x2029
      \<or> c = 0x202F \<or> c = 0x205F \<or> c = 0x3000 \<or> c = 0xFEFF)"

definition trimEnd :: "jsstring \<Rightarrow> jsstring" where
  "trimEnd s = rev (dropWhile isWS (rev s))"

definition trim :: "jsstring \<Rightarrow> jsstring" where
  "trim s = trimEnd (dropWhile isWS s)"

definition startsWith :: "jsstring \<Rightarrow> jsstring \<Rightarrow> bool" where
  "startsWith s p = (take (length p) s = p)"

section \<open>JSON values and JSON.parse\<close>

datatype 'n json =
    JNull
  | JBool bool
  | JNum 'n
  | JStr jsstring
  | JArr "'n json list"
  | JObj "(jsstring \<times> 'n json) list"

text \<open>
  The properties of a parsed object are kept in creation order; a member whose key is
  already present replaces the value of the earlier one (the last one wins).
\<close>

fun setProp :: "jsstring \<Rightarrow> 'v \<Rightarrow> (jsstring \<times> 'v) list \<Rightarrow> (jsstring \<times> 'v) list" where
  "setProp k v [] = [(k, v)]"
| "setProp k v ((k', v') # ms) = (if k = k' then (k, v) # ms else (k', v') # setProp k v ms)"

subsection \<open>Tokens\<close>

datatype token =
    TLBrace | TRBrace | TLBracket | TRBracket | TColon | TComma
  | TStr jsstring | TNum jsstring | TTrue | TFalse | TNull

definition isJSONSpace :: "jschar \<Rightarrow> bool" where
  "isJSONSpace c = (c = 0x20 \<or> c = 0x09 \<or> c = 0x0A \<or> c = 0x0D)"

definition isDigit :: "jschar \<Rightarrow> bool" where
  "isDigit c = (0x30 \<le> c \<and> c \<le> 0x39)"

definition hexVal :: "jschar \<Rightarrow> nat option" where
  "hexVal c =
     (if 0x30 \<le> c \<and> c \<le> 0x39 then Some (unat c - 48)
      else if 0x61 \<le> c \<and> c \<le> 0x66 then Some (unat c - 87)
      else if 0x41 \<le> c \<and> c \<le> 0x46 then Some (unat c - 55)
      else None)"

text \<open>The four hexadecimal digits of a \<open>\uXXXX\<close> escape.\<close>

fun hex4 :: "jsstring \<Rightarrow> (jschar \<times> jsstring) option" where
  "hex4 (h1 # h2 # h3 # h4 # rest) =
     (case hexVal h1 of None \<Rightarrow> None | Some a \<Rightarrow>
     (case hexVal h2 of None \<Rightarrow> None | Some b \<Rightarrow>
     (case hexVal h3 of None \<Rightarrow> None | Some c \<Rightarrow>
     (case hexVal h4 of None \<Rightarrow> None | Some d \<Rightarrow>
        Some (of_nat (4096 * a + 256 * b + 16 * c + d), rest)))))"
| "hex4 _ = None"

text \<open>What follows a backslash inside a string literal: the character it denotes, and the rest.\<close>

fun lexEscape :: "jsstring \<Rightarrow> (jschar \<times> jsstring) option" where
  "lexEscape [] = None"
| "lexEscape (e # es) =
     (if e = 0x22 then Some (0x22, es)
      else if e = 0x5C then Some (0x5C, es)
      else if e = 0x2F then Some (0x2F, es)
      else if e = 0x62 then Some (0x08, es)
      else if e = 0x66 then Some (0x0C, es)
      else if e = 0x6E then Some (0x0A, es)
      else if e = 0x72 then Some (0x0D, es)
      else if e = 0x74 then Some (0x09, es)
      else if e = 0x75 then hex4 es
      else None)"

lemma hex4_shorter: "hex4 s = Some (x, rest) \<Longrightarrow> length rest < length s"
  by (cases s rule: hex4.cases) (auto split: option.splits)

lemma lexEscape_shorter: "lexEscape s = Some (x, rest) \<Longrightarrow> length rest < length s"
  by (cases s) (auto split: if_splits dest: hex4_shorter)

text \<open>
  The body of a string literal, after the opening quote: the string it denotes and the
  text after the closing quote.  A control character or a bad escape is a syntax error.
\<close>

function lexString :: "jsstring \<Rightarrow> (jsstring \<times> jsstring) option" where
  "lexString [] = None"
| "lexString (c # cs) =
     (if c = 0x22 then Some ([], cs)
      else if c = 0x5C then
        (case lexEscape cs of
           None \<Rightarrow> None
         | Some (x, rest) \<Rightarrow>
             (case lexString rest of None \<Rightarrow> None | Some (d, r) \<Rightarrow> Some (x # d, r)))
      else if c < 0x20 then None
      else (case lexString cs of None \<Rightarrow> None | Some (d, r) \<Rightarrow> Some (c # d, r)))"
  by pat_completeness auto
termination
  by (relation "measure length") (auto dest: lexEscape_shorter)

lemma lexString_shorter: "lexString s = Some (d, rest) \<Longrightarrow> length rest < length s"
proof (induction s arbitrary: d rest rule: lexString.induct)
  case 1
  then show ?case by simp
next
  case (2 c cs)
  show ?case
  proof (cases "c = 0x22")
    case True
    with "2.prems" show ?thesis by auto
  next
    case nq: False
    show ?thesis
    proof (cases "c = 0x5C")
      case True
      with nq "2.prems" obtain x r1 d' where e: "lexEscape cs = Some (x, r1)"
        and l: "lexString r1 = Some (d', rest)"
        by (auto split: option.splits)
      from "2.IH"(1)[OF nq True e refl l] lexEscape_shorter[OF e] show ?thesis by simp
    next
      case False
      with nq "2.prems" obtain d' where c: "\<not> c < 0x20" and l: "lexString cs = Some (d', rest)"
        by (auto split: option.splits if_splits)
      from "2.IH"(2)[OF nq False c l] show ?thesis by simp
    qed
  qed
qed

text \<open>
  A number literal: \<open>-? (0 | [1-9][0-9]*) (. [0-9]+)? ([eE] [+-]? [0-9]+)?\<close>.  The result
  is the literal and the rest of the text.
\<close>

definition lexInt :: "jsstring \<Rightarrow> (jsstring \<times> jsstring) option" where
  "lexInt s =
     (case s of
        [] \<Rightarrow> None
      | c # cs \<Rightarrow>
          if c = 0x30 then Some ([c], cs)
          else if isDigit c then Some (c # takeWhile isDigit cs, dropWhile isDigit cs)
          else None)"

definition lexFrac :: "jsstring \<Rightarrow> (jsstring \<times> jsstring) option" where
  "lexFrac s =
     (case s of
        [] \<Rightarrow> Some ([], s)
      | c # cs \<Rightarrow>
          if c = 0x2E then
            (if takeWhile isDigit cs = [] then None
             else Some (c # takeWhile isDigit cs, dropWhile isDigit cs))
          else Some ([], s))"

definition lexSign :: "jsstring \<Rightarrow> jsstring \<times> jsstring" where
  "lexSign s =
     (case s of
        [] \<Rightarrow> ([], s)
      | d # ds \<Rightarrow> if d = 0x2B \<or> d = 0x2D then ([d], ds) else ([], s))"

definition lexExp :: "jsstring \<Rightarrow> (jsstring \<times> jsstring) option" where
  "lexExp s =
     (case s of
        [] \<Rightarrow> Some ([], s)
      | c # cs \<Rightarrow>
          if c = 0x65 \<or> c = 0x45 then
            (case lexSign cs of (sg, ds) \<Rightarrow>
               if takeWhile isDigit ds = [] then None
               else Some (c # sg @ takeWhile isDigit ds, dropWhile isDigit ds))
          else Some ([], s))"

definition lexMinus :: "jsstring \<Rightarrow> jsstring \<times> jsstring" where
  "lexMinus s = (if startsWith s [0x2D] then ([0x2D], tl s) else ([], s))"

definition lexNumber :: "jsstring \<Rightarrow> (jsstring \<times> jsstring) option" where
  "lexNumber s =
     (case lexMinus s of (sg, s1) \<Rightarrow>
     (case lexInt s1 of None \<Rightarrow> None | Some (ip, s2) \<Rightarrow>
     (case lexFrac s2 of None \<Rightarrow> None | Some (fp, s3) \<Rightarrow>
     (case lexExp s3 of None \<Rightarrow> None | Some (ep, s4) \<Rightarrow>
        Some (sg @ ip @ fp @ ep, s4)))))"

lemma length_dropWhile_le': "length (dropWhile P xs) \<le> length xs"
  by (induction xs) auto

lemma lexInt_shorter: "lexInt s = Some (l, rest) \<Longrightarrow> length rest < length s"
  using length_dropWhile_le'[of isDigit "tl s"]
  by (cases s) (auto simp: lexInt_def split: if_splits)

lemma lexFrac_shorter: "lexFrac s = Some (l, rest) \<Longrightarrow> length rest \<le> length s"
  using length_dropWhile_le'[of isDigit "tl s"]
  by (cases s) (auto simp: lexFrac_def split: if_splits)

lemma lexExp_shorter: "lexExp s = Some (l, rest) \<Longrightarrow> length rest \<le> length s"
proof (cases s)
  case Nil
  then show "lexExp s = Some (l, rest) \<Longrightarrow> length rest \<le> length s" by (simp add: lexExp_def)
next
  case (Cons c cs)
  assume a: "lexExp s = Some (l, rest)"
  obtain sg ds where sg: "lexSign cs = (sg, ds)" by (cases "lexSign cs")
  then have "length ds \<le> length cs" by (cases cs) (auto simp: lexSign_def split: if_splits)
  moreover have "length (dropWhile isDigit ds) \<le> length ds" by (rule length_dropWhile_le')
  ultimately show "length rest \<le> length s"
    using a Cons sg by (auto simp: lexExp_def split: if_splits)
qed

lemma lexNumber_shorter: "lexNumber s = Some (l, rest) \<Longrightarrow> length rest < length s"
proof -
  assume a: "lexNumber s = Some (l, rest)"
  obtain sg s1 where s1: "lexMinus s = (sg, s1)" by (cases "lexMinus s")
  then have l1: "length s1 \<le> length s" by (auto simp: lexMinus_def split: if_splits)
  from a s1 obtain ip s2 fp s3 ep where
    i: "lexInt s1 = Some (ip, s2)" and f: "lexFrac s2 = Some (fp, s3)" and e: "lexExp s3 = Some (ep, rest)"
    unfolding lexNumber_def by (auto split: option.splits)
  from lexInt_shorter[OF i] lexFrac_shorter[OF f] lexExp_shorter[OF e] l1
  show ?thesis by simp
qed

text \<open>The tokens of a JSON text; \<open>None\<close> is a syntax error.\<close>

definition consTok :: "token \<Rightarrow> token list option \<Rightarrow> token list option" where
  "consTok t r = (case r of None \<Rightarrow> None | Some ts \<Rightarrow> Some (t # ts))"

function lexJSON :: "jsstring \<Rightarrow> token list option" where
  "lexJSON [] = Some []"
| "lexJSON (c # cs) =
     (if isJSONSpace c then lexJSON cs
      else if c = 0x7B then (case lexJSON cs of None \<Rightarrow> None | Some ts \<Rightarrow> Some (TLBrace # ts))
      else if c = 0x7D then (case lexJSON cs of None \<Rightarrow> None | Some ts \<Rightarrow> Some (TRBrace # ts))
      else if c = 0x5B then (case lexJSON cs of None \<Rightarrow> None | Some ts \<Rightarrow> Some (TLBracket # ts))
      else if c = 0x5D then (case lexJSON cs of None \<Rightarrow> None | Some ts \<Rightarrow> Some (TRBracket # ts))
      else if c = 0x3A then (case lexJSON cs of None \<Rightarrow> None | Some ts \<Rightarrow> Some (TColon # ts))
      else if c = 0x2C then (case lexJSON cs of None \<Rightarrow> None | Some ts \<Rightarrow> Some (TComma # ts))
      else if c = 0x22 then
        (case lexString cs of
           None \<Rightarrow> None
         | Some (d, rest) \<Rightarrow>
             (case lexJSON rest of None \<Rightarrow> None | Some ts \<Rightarrow> Some (TStr d # ts)))
      else if c = 0x2D \<or> isDigit c then
        (case lexNumber (c # cs) of
           None \<Rightarrow> None
         | Some (lit, rest) \<Rightarrow>
             (case lexJSON rest of None \<Rightarrow> None | Some ts \<Rightarrow> Some (TNum lit # ts)))
      else if startsWith (c # cs) (ustr ''true'') then
        (case lexJSON (drop 3 cs) of None \<Rightarrow> None | Some ts \<Rightarrow> Some (TTrue # ts))
      else if startsWith (c # cs) (ustr ''false'') then
        (case lexJSON (drop 4 cs) of None \<Rightarrow> None | Some ts \<Rightarrow> Some (TFalse # ts))
      else if startsWith (c # cs) (ustr ''null'') then
        (case lexJSON (drop 3 cs) of None \<Rightarrow> None | Some ts \<Rightarrow> Some (TNull # ts))
      else None)"
  by pat_completeness auto
termination
  by (relation "measure length")
     (auto dest: lexString_shorter lexNumber_shorter intro: le_imp_less_Suc)

subsection \<open>The grammar\<close>

text \<open>
  The grammar is read by a pushdown automaton, one token at a time.  A frame of the stack
  is an array or an object under construction (for an object, with the key whose value
  is awaited); the state says what may come next.
\<close>

datatype 'n frame =
    FArr "'n json list"
  | FObj "(jsstring \<times> 'n json) list" "jsstring option"

datatype 'n pstate =
    PValue | PArrStart | PObjStart | PKey | PColon | PAfter | PDone "'n json"

text \<open>A complete value goes to the frame on top of the stack, or is the result.\<close>

fun closeValue :: "'n json \<Rightarrow> 'n frame list \<Rightarrow> ('n pstate \<times> 'n frame list) option" where
  "closeValue v [] = Some (PDone v, [])"
| "closeValue v (FArr els # fs) = Some (PAfter, FArr (els @ [v]) # fs)"
| "closeValue v (FObj ms (Some k) # fs) = Some (PAfter, FObj (setProp k v ms) None # fs)"
| "closeValue v (FObj ms None # fs) = None"

fun valueToken ::
    "'n numops \<Rightarrow> token \<Rightarrow> 'n frame list \<Rightarrow> ('n pstate \<times> 'n frame list) option" where
  "valueToken ops TLBrace fs = Some (PObjStart, FObj [] None # fs)"
| "valueToken ops TLBracket fs = Some (PArrStart, FArr [] # fs)"
| "valueToken ops (TStr s) fs = closeValue (JStr s) fs"
| "valueToken ops (TNum l) fs = closeValue (JNum (num_of_literal ops l)) fs"
| "valueToken ops TTrue fs = closeValue (JBool True) fs"
| "valueToken ops TFalse fs = closeValue (JBool False) fs"
| "valueToken ops TNull fs = closeValue JNull fs"
| "valueToken ops _ fs = None"

fun pstep ::
    "'n numops \<Rightarrow> 'n pstate \<Rightarrow> 'n frame list \<Rightarrow> token \<Rightarrow> ('n pstate \<times> 'n frame list) option" where
  "pstep ops PValue fs t = valueToken ops t fs"
| "pstep ops PArrStart (FArr els # fs) TRBracket = closeValue (JArr els) fs"
| "pstep ops PArrStart fs t = valueToken ops t fs"
| "pstep ops PObjStart (FObj ms None # fs) TRBrace = closeValue (JObj ms) fs"
| "pstep ops PObjStart (FObj ms None # fs) (TStr k) = Some (PColon, FObj ms (Some k) # fs)"
| "pstep ops PKey (FObj ms None # fs) (TStr k) = Some (PColon, FObj ms (Some k) # fs)"
| "pstep ops PColon fs TColon = Some (PValue, fs)"
| "pstep ops PAfter (FArr els # fs) TComma = Some (PValue, FArr els # fs)"
| "pstep ops PAfter (FArr els # fs) TRBracket = closeValue (JArr els) fs"
| "pstep ops PAfter (FObj ms None # fs) TComma = Some (PKey, FObj ms None # fs)"
| "pstep ops PAfter (FObj ms None # fs) TRBrace = closeValue (JObj ms) fs"
| "pstep ops _ _ _ = None"

fun runParser ::
    "'n numops \<Rightarrow> 'n pstate \<Rightarrow> 'n frame list \<Rightarrow> token list \<Rightarrow> 'n json option" where
  "runParser ops (PDone v) fs [] = Some v"
| "runParser ops st fs [] = None"
| "runParser ops st fs (t # ts) =
     (case pstep ops st fs t of None \<Rightarrow> None | Some (st', fs') \<Rightarrow> runParser ops st' fs' ts)"

text \<open>\<open>JSON.parse(text)\<close>: the value, or a SyntaxError.\<close>

definition JSON_parse :: "'n numops \<Rightarrow> jsstring \<Rightarrow> exn + 'n json" where
  "JSON_parse ops s =
     (case lexJSON s of
        None \<Rightarrow> Inl SyntaxError
      | Some ts \<Rightarrow>
          (case runParser ops PValue [] ts of None \<Rightarrow> Inl SyntaxError | Some v \<Rightarrow> Inr v))"

section \<open>Reading parsed values\<close>

text \<open>
  A value that may be \<open>undefined\<close> is a \<open>json option\<close>, with \<open>None\<close> for
  \<open>undefined\<close>.  \<open>truthy\<close> is ToBoolean, \<open>orElse\<close> is \<open>a || b\<close> and
  \<open>coalesce\<close> is \<open>a ?? b\<close>.
\<close>

definition truthy :: "'n numops \<Rightarrow> 'n json option \<Rightarrow> bool" where
  "truthy ops v =
     (case v of
        None \<Rightarrow> False
      | Some JNull \<Rightarrow> False
      | Some (JBool b) \<Rightarrow> b
      | Some (JNum n) \<Rightarrow> num_truthy ops n
      | Some (JStr s) \<Rightarrow> s \<noteq> []
      | Some _ \<Rightarrow> True)"

definition orElse :: "'n numops \<Rightarrow> 'n json option \<Rightarrow> 'n json option \<Rightarrow> 'n json option" where
  "orElse ops a b = (if truthy ops a then a else b)"

definition nullish :: "'n json option \<Rightarrow> bool" where
  "nullish v = (v = None \<or> v = Some JNull)"

definition coalesce :: "'n json option \<Rightarrow> 'n json option \<Rightarrow> 'n json option" where
  "coalesce a b = (if nullish a then b else a)"

text \<open>
  \<open>v.k\<close> raises a TypeError on \<open>null\<close> and \<open>undefined\<close>; \<open>v?.k\<close> is \<open>undefined\<close>
  there.  The program reads the properties \<open>final\<close>, \<open>tool_calls\<close>, \<open>tool\<close>,
  \<open>name\<close>, \<open>arguments\<close>, \<open>args\<close>, \<open>id\<close> and \<open>function\<close>: only an object with
  such a member has one of them (no built-in prototype of a parsed value defines them).
\<close>

definition getPropOpt :: "'n json option \<Rightarrow> jsstring \<Rightarrow> 'n json option" where
  "getPropOpt v k = (case v of Some (JObj ms) \<Rightarrow> map_of ms k | _ \<Rightarrow> None)"

definition getProp :: "'n json option \<Rightarrow> jsstring \<Rightarrow> exn + 'n json option" where
  "getProp v k = (if nullish v then Inl TypeError else Inr (getPropOpt v k))"

section \<open>The regular expressions of llm_providers.js\<close>

definition fence :: jsstring where
  "fence = [0x60, 0x60, 0x60]"

definition toLowerASCII :: "jschar \<Rightarrow> jschar" where
  "toLowerASCII c = (if 0x41 \<le> c \<and> c \<le> 0x5A then c + 0x20 else c)"

text \<open>\<open>(?:json)?\<close> under the flag \<open>i\<close>.\<close>

definition skipJsonTag :: "jsstring \<Rightarrow> jsstring" where
  "skipJsonTag s = (if map toLowerASCII (take 4 s) = ustr ''json'' then drop 4 s else s)"

text \<open>The first \<open>```\<close> of a text: what is before it and what is after it.\<close>

fun splitAtFence :: "jsstring \<Rightarrow> (jsstring \<times> jsstring) option" where
  "splitAtFence [] = None"
| "splitAtFence (c # cs) =
     (if startsWith (c # cs) fence then Some ([], drop 2 cs)
      else (case splitAtFence cs of None \<Rightarrow> None | Some (b, a) \<Rightarrow> Some (c # b, a)))"

text \<open>
  A match of \<open>```(?:json)?\s*([\s\S]*?)\s*```\<close> at the start of the text: group 1 and the
  text after the match.  The lazy group ends where the whitespace in front of the next
  \<open>```\<close> begins.
\<close>

definition fenceAt :: "jsstring \<Rightarrow> (jsstring \<times> jsstring) option" where
  "fenceAt s =
     (if startsWith s fence then
        (case splitAtFence (dropWhile isWS (skipJsonTag (drop 3 s))) of
           None \<Rightarrow> None
         | Some (b, a) \<Rightarrow> Some (trimEnd b, a))
      else None)"

text \<open>
  \<open>text.replace(/```(?:json)?\s*([\s\S]*?)\s*```/i, '$1')\<close>: the leftmost match is
  replaced by its group 1.
\<close>

fun stripFence :: "jsstring \<Rightarrow> jsstring" where
  "stripFence [] = []"
| "stripFence (c # cs) =
     (case fenceAt (c # cs) of
        Some (inner, after) \<Rightarrow> inner @ after
      | None \<Rightarrow> c # stripFence cs)"

text \<open>
  \<open>s.replace(/^```(?:json)?\s*([\s\S]*?)\s*```$/i, '$1')\<close>: the pattern has to match the
  whole string.
\<close>

definition stripWholeFence :: "jsstring \<Rightarrow> jsstring" where
  "stripWholeFence s =
     (if startsWith s fence then
        (let p = dropWhile isWS (skipJsonTag (drop 3 s)) in
         if 3 \<le> length p \<and> drop (length p - 3) p = fence
         then trimEnd (take (length p - 3) p) else s)
      else s)"

text \<open>A literal at the start of the text: the text after it.\<close>

definition expect :: "jsstring \<Rightarrow> jsstring \<Rightarrow> jsstring option" where
  "expect p s = (if startsWith s p then Some (drop (length p) s) else None)"

text \<open>
  \<open>([\s\S]*?)"\s*}\<close>: the group is the text up to the first double quote that is
  followed by optional whitespace and a closing brace.
\<close>

fun lazyQuoted :: "jsstring \<Rightarrow> jsstring option" where
  "lazyQuoted [] = None"
| "lazyQuoted (c # cs) =
     (if c = 0x22 \<and> startsWith (dropWhile isWS cs) [0x7D] then Some []
      else (case lazyQuoted cs of None \<Rightarrow> None | Some cap \<Rightarrow> Some (c # cap)))"

text \<open>A match of \<open>{\s*"final"\s*:\s*"([\s\S]*?)"\s*}\<close> at the start of the text: group 1.\<close>

definition finalAt :: "jsstring \<Rightarrow> jsstring option" where
  \<open>finalAt s = do {
     s1 \<leftarrow> expect (ustr ''{'') s;
     s2 \<leftarrow> expect (ustr ''"final"'') (dropWhile isWS s1);
     s3 \<leftarrow> expect (ustr '':'') (dropWhile isWS s2);
     s4 \<leftarrow> expect (ustr ''"'') (dropWhile isWS s3);
     lazyQuoted s4
   }\<close>

text \<open>\<open>cleaned.match(...)\<close>: group 1 of the leftmost match.\<close>

fun finalMatch :: "jsstring \<Rightarrow> jsstring option" where
  "finalMatch [] = None"
| "finalMatch (c # cs) =
     (case finalAt (c # cs) of Some cap \<Rightarrow> Some cap | None \<Rightarrow> finalMatch cs)"

text \<open>
  The tool-call pattern
  \<open>{\s*["'](tool|name)["']\s*:\s*["']([^"']+)["']\s*,\s*["']arguments["']\s*:\s*({[^}]*}|"[^"]*")\s*}\<close>.
\<close>

definition isQuote :: "jschar \<Rightarrow> bool" where
  "isQuote c = (c = 0x22 \<or> c = 0x27)"

definition expectQuote :: "jsstring \<Rightarrow> jsstring option" where
  "expectQuote s = (case s of [] \<Rightarrow> None | c # cs \<Rightarrow> if isQuote c then Some cs else None)"

definition toolOrName :: "jsstring \<Rightarrow> jsstring option" where
  "toolOrName s =
     (if startsWith s (ustr ''tool'') then Some (drop 4 s)
      else if startsWith s (ustr ''name'') then Some (drop 4 s)
      else None)"

definition nonQuotes1 :: "jsstring \<Rightarrow> jsstring option" where
  "nonQuotes1 s =
     (if takeWhile (\<lambda>c. \<not> isQuote c) s = [] then None
      else Some (dropWhile (\<lambda>c. \<not> isQuote c) s))"

definition argumentsGroup :: "jsstring \<Rightarrow> jsstring option" where
  \<open>argumentsGroup s =
     (case s of
        [] \<Rightarrow> None
      | c # cs \<Rightarrow>
          if c = 0x7B then expect (ustr ''}'') (dropWhile (\<lambda>x. x \<noteq> 0x7D) cs)
          else if c = 0x22 then expect (ustr ''"'') (dropWhile (\<lambda>x. x \<noteq> 0x22) cs)
          else None)\<close>

text \<open>A match of the tool-call pattern at the start of the text: the text after the match.\<close>

definition toolAt :: "jsstring \<Rightarrow> jsstring option" where
  \<open>toolAt s = do {
     s1 \<leftarrow> expect (ustr ''{'') s;
     s2 \<leftarrow> expectQuote (dropWhile isWS s1);
     s3 \<leftarrow> toolOrName s2;
     s4 \<leftarrow> expectQuote s3;
     s5 \<leftarrow> expect (ustr '':'') (dropWhile isWS s4);
     s6 \<leftarrow> expectQuote (dropWhile isWS s5);
     s7 \<leftarrow> nonQuotes1 s6;
     s8 \<leftarrow> expectQuote s7;
     s9 \<leftarrow> expect (ustr '','') (dropWhile isWS s8);
     s10 \<leftarrow> expectQuote (dropWhile isWS s9);
     s11 \<leftarrow> expect (ustr ''arguments'') s10;
     s12 \<leftarrow> expectQuote s11;
     s13 \<leftarrow> expect (ustr '':'') (dropWhile isWS s12);
     s14 \<leftarrow> argumentsGroup (dropWhile isWS s13);
     expect (ustr ''}'') (dropWhile isWS s14)
   }\<close>

text \<open>\<open>cleaned.match(...)[0]\<close>: the text of the leftmost match.\<close>

fun toolMatch :: "jsstring \<Rightarrow> jsstring option" where
  "toolMatch [] = None"
| "toolMatch (c # cs) =
     (case toolAt (c # cs) of
        Some rest \<Rightarrow> Some (take (length (c # cs) - length rest) (c # cs))
      | None \<Rightarrow> toolMatch cs)"

section \<open>Strings of parsed values\<close>

text \<open>The first exception of a list of results, or all the values.\<close>

fun collect :: "(exn + 'a) list \<Rightarrow> exn + 'a list" where
  "collect [] = Inr []"
| "collect (Inl e # rs) = Inl e"
| "collect (Inr x # rs) = (case collect rs of Inl e \<Rightarrow> Inl e | Inr xs \<Rightarrow> Inr (x # xs))"

text \<open>
  ToString of a parsed value, as in a template literal.  An array is joined with commas,
  \<open>null\<close> elements being empty; an object is \<open>[object Object]\<close>, unless it has a member
  \<open>toString\<close>, which hides \<open>Object.prototype.toString\<close> and is not callable: the
  conversion is then a TypeError.
\<close>

fun toStringJson :: "'n numops \<Rightarrow> 'n json \<Rightarrow> exn + jsstring" where
  "toStringJson ops JNull = Inr (ustr ''null'')"
| "toStringJson ops (JBool b) = Inr (if b then ustr ''true'' else ustr ''false'')"
| "toStringJson ops (JNum n) = Inr (num_to_string ops n)"
| "toStringJson ops (JStr s) = Inr s"
| "toStringJson ops (JArr vs) =
     (case collect (map (\<lambda>v. if v = JNull then Inr [] else toStringJson ops v) vs) of
        Inl e \<Rightarrow> Inl e
      | Inr strs \<Rightarrow> Inr (join (ustr '','') strs))"
| "toStringJson ops (JObj ms) =
     (if map_of ms (ustr ''toString'') \<noteq> None then Inl TypeError
      else Inr (ustr ''[object Object]''))"

text \<open>
  The order in which the properties of an object are enumerated: the array indices in
  ascending order, then the other keys in creation order.
\<close>

definition arrayIndex :: "jsstring \<Rightarrow> int option" where
  "arrayIndex k =
     (if k \<noteq> [] \<and> list_all isDigit k \<and> (k = [0x30] \<or> hd k \<noteq> 0x30)
         \<and> intOfDigits k < 4294967295
      then Some (intOfDigits k) else None)"

definition propertyOrder :: "(jsstring \<times> 'v) list \<Rightarrow> (jsstring \<times> 'v) list" where
  "propertyOrder ms =
     sort_key (\<lambda>(k, v). case arrayIndex k of Some i \<Rightarrow> i | None \<Rightarrow> 0)
       (filter (\<lambda>(k, v). arrayIndex k \<noteq> None) ms)
     @ filter (\<lambda>(k, v). arrayIndex k = None) ms"

text \<open>\<open>JSON.stringify(v)\<close> of a parsed value, without replacer or gap.\<close>

fun stringifyJson :: "'n numops \<Rightarrow> 'n json \<Rightarrow> jsstring" where
  "stringifyJson ops JNull = ustr ''null''"
| "stringifyJson ops (JBool b) = (if b then ustr ''true'' else ustr ''false'')"
| "stringifyJson ops (JNum n) = (if num_is_finite ops n then num_to_string ops n else ustr ''null'')"
| "stringifyJson ops (JStr s) = quoteJSONString s"
| "stringifyJson ops (JArr vs) = ustr ''['' @ join (ustr '','') (map (stringifyJson ops) vs) @ ustr '']''"
| "stringifyJson ops (JObj ms) =
     ustr ''{''
     @ join (ustr '','')
         (map (\<lambda>(k, s). quoteJSONString k @ ustr '':'' @ s)
            (propertyOrder (map (\<lambda>(k, v). (k, stringifyJson ops v)) ms)))
     @ ustr ''}''"

section \<open>Decisions (llm_providers.js)\<close>

text \<open>
  The object a provider resolves to, with the alternative property names that
  \<open>Agent.run\<close> reads, and the entries of its list of tool calls.  \<open>None\<close> is a missing
  property (or \<open>null\<close>, for the lists).
\<close>

record 'n rawcall =
  call_id :: "'n json option"
  call_name :: "'n json option"
  call_tool :: "'n json option"
  call_args :: "'n json option"
  call_arguments :: "'n json option"

record 'n step =
  toolCalls :: "'n rawcall list option"
  tool_calls :: "'n rawcall list option"
  stopReason :: "jsstring option"
  stop_reason :: "jsstring option"
  content :: "'n json option"

text \<open>\<open>{ toolCalls: null, content: c, stopReason: r }\<close>\<close>

definition contentStep :: "jsstring \<Rightarrow> jsstring \<Rightarrow> 'n step" where
  "contentStep c r =
     \<lparr>toolCalls = None, tool_calls = None, stopReason = Some r, stop_reason = None,
      content = Some (JStr c)\<rparr>"

text \<open>\<open>{ toolCalls: calls, content: null, stopReason: 'continue' }\<close>\<close>

definition callsStep :: "'n rawcall list \<Rightarrow> 'n step" where
  "callsStep calls =
     \<lparr>toolCalls = Some calls, tool_calls = None, stopReason = Some (ustr ''continue''),
      stop_reason = None, content = Some JNull\<rparr>"

text \<open>\<open>{ id, name, args }\<close>\<close>

definition parsedCall :: "'n json option \<Rightarrow> 'n json option \<Rightarrow> 'n json \<Rightarrow> 'n rawcall" where
  "parsedCall i n a =
     \<lparr>call_id = i, call_name = n, call_tool = None, call_args = Some a, call_arguments = None\<rparr>"

text \<open>
  \<open>robustParseArgs\<close>.  When the first \<open>JSON.parse(s)\<close> raises, the handler parses
  \<open>s\<close> again and then the string of the result.
\<close>

definition robustParseArgs :: "'n numops \<Rightarrow> 'n json option \<Rightarrow> 'n json" where
  "robustParseArgs ops val =
     (case val of
        None \<Rightarrow> JObj []
      | Some JNull \<Rightarrow> JObj []
      | Some (JObj ms) \<Rightarrow> JObj ms
      | Some (JArr vs) \<Rightarrow> JArr vs
      | Some (JStr v) \<Rightarrow>
          (let s = trim (stripWholeFence (trim v)) in
           case JSON_parse ops s of
             Inr r \<Rightarrow> r
           | Inl e \<Rightarrow>
               (case JSON_parse ops s of
                  Inl e1 \<Rightarrow> JObj []
                | Inr r1 \<Rightarrow>
                    (case toStringJson ops r1 of
                       Inl e2 \<Rightarrow> JObj []
                     | Inr s1 \<Rightarrow>
                         (case JSON_parse ops s1 of Inl e3 \<Rightarrow> JObj [] | Inr r2 \<Rightarrow> r2))))
      | Some _ \<Rightarrow> JObj [])"

text \<open>
  The callback of \<open>obj.tool_calls.map\<close>: \<open>None\<close> is the \<open>null\<close> that
  \<open>filter(Boolean)\<close> removes.  \<open>clock idx\<close> is the reading of \<open>Date.now()\<close> in the
  callback of entry \<open>idx\<close>.
\<close>

definition parseCall :: "'n numops \<Rightarrow> (nat \<Rightarrow> nat) \<Rightarrow> nat \<Rightarrow> 'n json \<Rightarrow> 'n rawcall option" where
  "parseCall ops clock idx c =
     (let name = orElse ops (orElse ops (getPropOpt (Some c) (ustr ''name''))
                                       (getPropOpt (Some c) (ustr ''tool'')))
                   (getPropOpt (getPropOpt (Some c) (ustr ''function'')) (ustr ''name''))
      in if \<not> truthy ops name then None
         else
           (let argsRaw = coalesce (coalesce (coalesce (getPropOpt (Some c) (ustr ''arguments''))
                                                       (getPropOpt (Some c) (ustr ''args'')))
                                     (getPropOpt (getPropOpt (Some c) (ustr ''function''))
                                        (ustr ''arguments'')))
                            (Some (JObj []));
                args = robustParseArgs ops argsRaw;
                id = orElse ops (orElse ops (getPropOpt (Some c) (ustr ''id'')) name)
                       (Some (JStr (ustr ''parsed-'' @ natToString (clock idx) @ ustr ''-''
                                     @ natToString idx)))
            in Some (parsedCall id name args)))"

text \<open>Case 2: \<open>{"tool_calls": [...]}\<close>.\<close>

definition toolCallsCase :: "'n numops \<Rightarrow> (nat \<Rightarrow> nat) \<Rightarrow> 'n json \<Rightarrow> 'n step option" where
  "toolCallsCase ops clock obj =
     (case getPropOpt (Some obj) (ustr ''tool_calls'') of
        Some (JArr cs) \<Rightarrow>
          (let calls = List.map_filter (\<lambda>(idx, c). parseCall ops clock idx c) (List.enumerate 0 cs)
           in if length calls > 0 then Some (callsStep calls) else None)
      | _ \<Rightarrow> None)"

text \<open>Case 3: a single tool call in object form.\<close>

definition singleCallCase :: "'n numops \<Rightarrow> 'n json \<Rightarrow> 'n step option" where
  "singleCallCase ops obj =
     (let toolName = orElse ops (getPropOpt (Some obj) (ustr ''tool''))
                       (getPropOpt (Some obj) (ustr ''name''))
      in if truthy ops toolName then
           (let toolArgs = robustParseArgs ops
                             (coalesce (coalesce (getPropOpt (Some obj) (ustr ''arguments''))
                                                 (getPropOpt (Some obj) (ustr ''args'')))
                                (Some (JObj [])))
            in Some (callsStep [parsedCall toolName toolName toolArgs]))
         else None)"

text \<open>Case 4: a plain string.\<close>

definition stringCase :: "'n json \<Rightarrow> 'n step option" where
  "stringCase obj =
     (case obj of
        JStr s \<Rightarrow> if trim s \<noteq> [] then Some (contentStep (trim s) (ustr ''continue'')) else None
      | _ \<Rightarrow> None)"

text \<open>
  Cases 2 to 4 in their order, and the inner \<open>try\<close> block around all four: \<open>Inl\<close> when
  it raises (the SyntaxError of \<open>JSON.parse\<close>, or
  the TypeError of reading \<open>final\<close> from \<open>null\<close>), \<open>Inr None\<close> when it ends without a
  \<open>return\<close>.  After \<open>obj.final\<close> was read, \<open>obj\<close> is not \<open>null\<close>.
\<close>

definition otherCases :: "'n numops \<Rightarrow> (nat \<Rightarrow> nat) \<Rightarrow> 'n json \<Rightarrow> 'n step option" where
  "otherCases ops clock obj =
     (case toolCallsCase ops clock obj of
        Some d \<Rightarrow> Some d
      | None \<Rightarrow>
          (case singleCallCase ops obj of
             Some d \<Rightarrow> Some d
           | None \<Rightarrow> stringCase obj))"

definition strictParse :: "'n numops \<Rightarrow> (nat \<Rightarrow> nat) \<Rightarrow> jsstring \<Rightarrow> exn + 'n step option" where
  "strictParse ops clock cleaned =
     (case JSON_parse ops cleaned of
        Inl e \<Rightarrow> Inl e
      | Inr obj \<Rightarrow>
          (case getProp (Some obj) (ustr ''final'') of
             Inl e \<Rightarrow> Inl e
           | Inr (Some (JStr s)) \<Rightarrow> Inr (Some (contentStep s (ustr ''final'')))
           | Inr _ \<Rightarrow> Inr (otherCases ops clock obj)))"

text \<open>Heuristic 2: the text of the match is parsed; an exception here leaves the outer \<open>try\<close>.\<close>

definition toolHeuristic :: "'n numops \<Rightarrow> jsstring \<Rightarrow> exn + 'n step option" where
  "toolHeuristic ops cleaned =
     (case toolMatch cleaned of
        None \<Rightarrow> Inr None
      | Some jsonString \<Rightarrow>
          (case JSON_parse ops jsonString of
             Inl e \<Rightarrow> Inl e
           | Inr parsed \<Rightarrow>
               (case getProp (Some parsed) (ustr ''tool'') of
                  Inl e \<Rightarrow> Inl e
                | Inr tool \<Rightarrow>
                    (let toolName = orElse ops tool (getPropOpt (Some parsed) (ustr ''name''));
                         toolArgs = robustParseArgs ops (getPropOpt (Some parsed) (ustr ''arguments''))
                     in if truthy ops toolName
                        then Inr (Some (callsStep [parsedCall toolName toolName toolArgs]))
                        else Inr None))))"

text \<open>The outer \<open>try\<close> block.\<close>

definition tryBody :: "'n numops \<Rightarrow> (nat \<Rightarrow> nat) \<Rightarrow> jsstring \<Rightarrow> exn + 'n step option" where
  "tryBody ops clock text =
     (let cleaned = trim (stripFence text) in
      case strictParse ops clock cleaned of
        Inr (Some d) \<Rightarrow> Inr (Some d)
      | _ \<Rightarrow>
          (case finalMatch cleaned of
             Some cap \<Rightarrow> Inr (Some (contentStep cap (ustr ''final'')))
           | None \<Rightarrow>
               (case toolHeuristic ops cleaned of
                  Inl e \<Rightarrow> Inl e
                | Inr (Some d) \<Rightarrow> Inr (Some d)
                | Inr None \<Rightarrow>
                    if cleaned \<noteq> [] then Inr (Some (contentStep cleaned (ustr ''continue'')))
                    else Inr None)))"

text \<open>
  \<open>tryParseToolCall(text)\<close>: an exception of the body is swallowed, and a body that ends
  without a \<open>return\<close> falls through to the last statement as well.
\<close>

definition tryParseToolCall :: "'n numops \<Rightarrow> (nat \<Rightarrow> nat) \<Rightarrow> jsstring \<Rightarrow> 'n step" where
  "tryParseToolCall ops clock text =
     (case tryBody ops clock text of
        Inr (Some d) \<Rightarrow> d
      | _ \<Rightarrow> contentStep text (ustr ''continue''))"

text \<open>
  \<open>/```(?:json)?\s*([\s\S]*?)\s*```/i.test(s)\<close>: the fence pattern matches somewhere
  in the text.
\<close>

fun fenceMatches :: "jsstring \<Rightarrow> bool" where
  "fenceMatches [] = False"
| "fenceMatches (c # cs) = (fenceAt (c # cs) \<noteq> None \<or> fenceMatches cs)"

text \<open>The planner text \<open>{"final":<X as a JSON string>}\<close>.\<close>

definition finalText :: "jsstring \<Rightarrow> jsstring" where
  \<open>finalText X = ustr ''{"final":'' @ quoteJSONString X @ ustr ''}''\<close>


section \<open>The agent (agent.js)\<close>

subsection \<open>History, tools and state\<close>

datatype role = User | Assistant | Tool

text \<open>An entry of \<open>tool_calls\<close> in an assistant turn: \<open>{ id, function: { name, arguments } }\<close>.\<close>

record 'n callref =
  ref_id :: "'n json"
  ref_name :: "'n json option"
  ref_arguments :: jsstring

text \<open>A turn of the history; \<open>None\<close> is a property the turn does not have.\<close>

record 'n turn =
  turn_role :: role
  turn_content :: "'n json option"
  turn_tool_calls :: "'n callref list option"
  turn_tool_call_id :: "'n json option"

text \<open>A normalized call \<open>{ id, name, args }\<close>.\<close>

record 'n normcall =
  nc_id :: "'n json"
  nc_name :: "'n json option"
  nc_args :: "'n json"

text \<open>
  What \<open>fn.implementation(args)\<close> comes to: a value (with the heap that holds its
  objects); an exception or rejection with a value \<open>e\<close> for which the template literal
  \<open>${e.message}\<close> of the \<open>catch\<close> block gives a string (the message of an Error,
  \<open>undefined\<close> for a value without message); an exception or rejection with a value for
  which that template literal raises (\<open>null\<close> or \<open>undefined\<close>, whose \<open>message\<close>
  cannot be read, or a message that cannot be written as a string); or a promise that is
  still pending when the timer fires.  A tool may read and change a world \<open>'w\<close>.
\<close>

datatype 'n toolresult =
    Resolved "'n heap" "'n jsvalue"
  | Failed jsstring
  | Unreadable exn
  | Pending

record ('n, 'w) toolfn =
  fn_name :: jsstring
  fn_description :: jsstring
  fn_usage :: jsstring
  implementation :: "'n json \<Rightarrow> 'w \<Rightarrow> 'n toolresult \<times> 'w"

text \<open>
  The fields set by the constructor: the limits, and the registry
  \<open>new Map(tools.filter(t => t && t.function).map(t => [t.function.name, t.function]))\<close>.
  An entry of \<open>tools\<close> is \<open>None\<close> when it has no \<open>function\<close>; of two entries with one
  name the later one stays.
\<close>

record config =
  maxTurns :: nat
  toolTimeoutMs :: nat
  obsTruncateChars :: nat

definition defaultConfig :: config where
  "defaultConfig = \<lparr>maxTurns = 10, toolTimeoutMs = 10000, obsTruncateChars = 3000\<rparr>"

definition buildRegistry :: "('n, 'w) toolfn option list \<Rightarrow> (jsstring \<rightharpoonup> ('n, 'w) toolfn)" where
  "buildRegistry tools = foldl (\<lambda>m f. m(fn_name f \<mapsto> f)) Map.empty (List.map_filter id tools)"

text \<open>\<open>registry.get(name)\<close>: the keys are strings, so only a string finds an entry.\<close>

definition registryGet :: "(jsstring \<rightharpoonup> ('n, 'w) toolfn) \<Rightarrow> 'n json option \<Rightarrow> ('n, 'w) toolfn option" where
  "registryGet reg name = (case name of Some (JStr s) \<Rightarrow> reg s | _ \<Rightarrow> None)"

text \<open>
  The state of a run: the history, what the two callbacks have received, the world of the
  tools and the state of the provider.
\<close>

record ('n, 'w, 'p) state =
  history :: "'n turn list"
  thoughts :: "jsstring list"
  messages :: "(jsstring \<times> jsstring) list"
  world :: 'w
  provider_state :: 'p

definition onThought :: "jsstring \<Rightarrow> ('n, 'w, 'p) state \<Rightarrow> ('n, 'w, 'p) state" where
  "onThought t st = st\<lparr>thoughts := thoughts st @ [t]\<rparr>"

definition onMessage :: "jsstring \<Rightarrow> jsstring \<Rightarrow> ('n, 'w, 'p) state \<Rightarrow> ('n, 'w, 'p) state" where
  "onMessage sender t st = st\<lparr>messages := messages st @ [(sender, t)]\<rparr>"

definition push :: "'n turn \<Rightarrow> ('n, 'w, 'p) state \<Rightarrow> ('n, 'w, 'p) state" where
  "push t st = st\<lparr>history := history st @ [t]\<rparr>"

subsection \<open>Normalizing the calls\<close>

text \<open>The string arguments of a call: code fences stripped, then parsed, then parsed twice.\<close>

definition parseStringArgs :: "'n numops \<Rightarrow> jsstring \<Rightarrow> 'n json" where
  "parseStringArgs ops a =
     (let s = trim (stripWholeFence (trim a)) in
      case JSON_parse ops s of
        Inr r \<Rightarrow> r
      | Inl e \<Rightarrow>
          (case JSON_parse ops s of
             Inl e1 \<Rightarrow> JObj []
           | Inr r1 \<Rightarrow>
               (case toStringJson ops r1 of
                  Inl e2 \<Rightarrow> JObj []
                | Inr s1 \<Rightarrow> (case JSON_parse ops s1 of Inl e3 \<Rightarrow> JObj [] | Inr r2 \<Rightarrow> r2))))"

text \<open>
  The callback of \<open>toolCalls.map\<close> in turn \<open>i\<close>.  \<open>freshId i idx\<close> is the identifier
  made for a call without \<open>id\<close>: the result of \<open>crypto.randomUUID()\<close>, or the string built
  from \<open>i\<close>, \<open>idx\<close>, the clock and \<open>Math.random()\<close>.
\<close>

definition normalizeCall ::
    "'n numops \<Rightarrow> (nat \<Rightarrow> nat \<Rightarrow> jsstring) \<Rightarrow> nat \<Rightarrow> nat \<Rightarrow> 'n rawcall \<Rightarrow> 'n normcall" where
  "normalizeCall ops freshId i idx call =
     (let name = orElse ops (call_name call) (call_tool call);
          args0 = coalesce (coalesce (call_args call) (call_arguments call)) (Some (JObj []));
          args1 = (case args0 of Some (JStr a) \<Rightarrow> Some (parseStringArgs ops a) | _ \<Rightarrow> args0);
          args = (case args1 of Some (JObj ms) \<Rightarrow> JObj ms | Some (JArr vs) \<Rightarrow> JArr vs | _ \<Rightarrow> JObj []);
          id = (case call_id call of
                  Some v \<Rightarrow> if truthy ops (Some v) then v else JStr (freshId i idx)
                | None \<Rightarrow> JStr (freshId i idx))
      in \<lparr>nc_id = id, nc_name = name, nc_args = args\<rparr>)"

definition normalizeCalls ::
    "'n numops \<Rightarrow> (nat \<Rightarrow> nat \<Rightarrow> jsstring) \<Rightarrow> nat \<Rightarrow> 'n rawcall list \<Rightarrow> 'n normcall list" where
  "normalizeCalls ops freshId i calls =
     filter (\<lambda>c. truthy ops (nc_name c))
       (map (\<lambda>(idx, call). normalizeCall ops freshId i idx call) (List.enumerate 0 calls))"

text \<open>The assistant turn that records all the calls of a turn.\<close>

definition callsTurn :: "'n numops \<Rightarrow> 'n normcall list \<Rightarrow> 'n turn" where
  "callsTurn ops cs =
     \<lparr>turn_role = Assistant, turn_content = Some (JStr []),
      turn_tool_calls =
        Some (map (\<lambda>c. \<lparr>ref_id = nc_id c, ref_name = nc_name c,
                         ref_arguments = stringifyJson ops (nc_args c)\<rparr>) cs),
      turn_tool_call_id = None\<rparr>"

subsection \<open>Executing a call\<close>

text \<open>
  \<open>runWithTimeout(promise, ms)\<close>: the value (\<open>Inr\<close>), or the rejection (\<open>Inl\<close>) with
  what \<open>${e.message}\<close> gives for it, a string or an exception; a promise that is still
  pending is rejected with the Error of the timer.
\<close>

definition runWithTimeout ::
    "'n toolresult \<Rightarrow> nat \<Rightarrow> (exn + jsstring) + 'n heap \<times> 'n jsvalue" where
  "runWithTimeout r ms =
     (case r of
        Resolved h v \<Rightarrow> Inr (h, v)
      | Failed msg \<Rightarrow> Inl (Inr msg)
      | Unreadable e \<Rightarrow> Inl (Inl e)
      | Pending \<Rightarrow> Inl (Inr (ustr ''tool timeout after '' @ natToString ms @ ustr ''ms'')))"

text \<open>
  \<open>try { result = await this.runWithTimeout(...) } catch (e) { result = `Tool '...' failed:
  ${e.message}` }\<close>: the result, or the exception the \<open>catch\<close> block raises.
\<close>

definition toolOutcome ::
    "config \<Rightarrow> jsstring \<Rightarrow> 'n toolresult \<Rightarrow> exn + 'n heap \<times> 'n jsvalue" where
  "toolOutcome cfg name r =
     (case runWithTimeout r (toolTimeoutMs cfg) of
        Inr (h, v) \<Rightarrow> Inr (h, v)
      | Inl (Inr msg) \<Rightarrow>
          Inr ([], VStr (ustr ''Tool '' @ [0x27] @ name @ [0x27] @ ustr '' failed: '' @ msg))
      | Inl (Inl e) \<Rightarrow> Inl e)"

definition toolTurn :: "'n json \<Rightarrow> jsstring \<Rightarrow> 'n turn" where
  "toolTurn i c =
     \<lparr>turn_role = Tool, turn_content = Some (JStr c), turn_tool_calls = None,
      turn_tool_call_id = Some i\<rparr>"

definition unknownToolMessage :: "jsstring \<Rightarrow> jsstring" where
  "unknownToolMessage name =
     ustr ''Unknown tool '' @ [0x27] @ name @ [0x27] @ ustr ''. Please choose a listed tool.''"

text \<open>The string of \<open>c.name\<close> in a template literal.\<close>

definition nameString :: "'n numops \<Rightarrow> 'n json option \<Rightarrow> exn + jsstring" where
  "nameString ops name =
     (case name of None \<Rightarrow> Inr (ustr ''undefined'') | Some n \<Rightarrow> toStringJson ops n)"

text \<open>
  The body of the loop over the normalized calls.  The result is \<open>None\<close> when the
  sanitizer does not return; otherwise it is the new state, with the exception that ended
  the run if there is one: the TypeError of a name that cannot be written as a string, or
  what the \<open>catch\<close> block raises for a tool that failed with an unreadable value.
\<close>

definition dispatchUnknown :: "'n normcall \<Rightarrow> jsstring \<Rightarrow> ('n, 'w, 'p) state \<Rightarrow> ('n, 'w, 'p) state" where
  "dispatchUnknown c name st =
     (let msg = unknownToolMessage name
      in push (toolTurn (nc_id c) (ustr ''OBSERVATION['' @ name @ ustr '']: '' @ msg))
           (onThought (ustr ''[act] '' @ msg) st))"

definition dispatchKnown ::
    "'n numops \<Rightarrow> config \<Rightarrow> ('n, 'w) toolfn \<Rightarrow> 'n normcall \<Rightarrow> jsstring \<Rightarrow> ('n, 'w, 'p) state
      \<Rightarrow> (exn option \<times> ('n, 'w, 'p) state) option" where
  "dispatchKnown ops cfg fn c name st =
     (let st1 = onThought (ustr ''[act] Executing '' @ name @ ustr '' ''
                            @ stringifyJson ops (nc_args c)) st;
          (r, w) = implementation fn (nc_args c) (world st1);
          st2 = st1\<lparr>world := w\<rparr>
      in case toolOutcome cfg name r of
           Inl e \<Rightarrow> Some (Some e, st2)
         | Inr (h, result) \<Rightarrow>
             (case sanitizeObservation ops (obsTruncateChars cfg) h result of
                None \<Rightarrow> None
              | Some obsText \<Rightarrow>
                  Some (None,
                    push (toolTurn (nc_id c) (ustr ''OBSERVATION['' @ name @ ustr '']: '' @ obsText))
                      (onThought (ustr ''[observe] '' @ name @ ustr '' => '' @ take 120 obsText
                                   @ (if length obsText > 120 then [ellipsis] else [])) st2))))"

definition dispatch ::
    "'n numops \<Rightarrow> config \<Rightarrow> (jsstring \<rightharpoonup> ('n, 'w) toolfn) \<Rightarrow> 'n normcall \<Rightarrow> ('n, 'w, 'p) state
      \<Rightarrow> (exn option \<times> ('n, 'w, 'p) state) option" where
  "dispatch ops cfg reg c st =
     (case nameString ops (nc_name c) of
        Inl e \<Rightarrow> Some (Some e, st)
      | Inr name \<Rightarrow>
          (case registryGet reg (nc_name c) of
             None \<Rightarrow> Some (None, dispatchUnknown c name st)
           | Some fn \<Rightarrow> dispatchKnown ops cfg fn c name st))"

fun dispatchAll ::
    "'n numops \<Rightarrow> config \<Rightarrow> (jsstring \<rightharpoonup> ('n, 'w) toolfn) \<Rightarrow> 'n normcall list \<Rightarrow> ('n, 'w, 'p) state
      \<Rightarrow> (exn option \<times> ('n, 'w, 'p) state) option" where
  "dispatchAll ops cfg reg [] st = Some (None, st)"
| "dispatchAll ops cfg reg (c # cs) st =
     (case dispatch ops cfg reg c st of
        None \<Rightarrow> None
      | Some (Some e, st') \<Rightarrow> Some (Some e, st')
      | Some (None, st') \<Rightarrow> dispatchAll ops cfg reg cs st')"

subsection \<open>The loop\<close>

text \<open>How an iteration ends: \<open>continue\<close> (or its end), \<open>return\<close>, or an exception.\<close>

datatype outcome = Continue | Return | Throw exn

text \<open>\<open>isFinal\<close>.  The words are ASCII, and no other character has one of their letters as
  its lower case, so the lower case of the ASCII letters decides the test.\<close>

definition isFinal :: "jsstring \<Rightarrow> bool" where
  "isFinal s =
     (map toLowerASCII s \<in> set [ustr ''final'', ustr ''stop'', ustr ''completed'', ustr ''end'',
                                ustr ''done''])"

definition stuckMessage :: jsstring where
  "stuckMessage = ustr ''I seem to be stuck in a loop. Please try rephrasing your query.''"

definition replanMessage :: jsstring where
  "replanMessage = ustr ''No valid next action. Replanning with constraints.''"

text \<open>\<open>a || b\<close> for strings, and the content of a step when it is a non-empty string.\<close>

definition strOr :: "jsstring option \<Rightarrow> jsstring \<Rightarrow> jsstring" where
  "strOr a b = (case a of Some r \<Rightarrow> if r \<noteq> [] then r else b | None \<Rightarrow> b)"

definition textContent :: "'n json option \<Rightarrow> jsstring option" where
  "textContent c = (case c of Some (JStr t) \<Rightarrow> if length t > 0 then Some t else None | _ \<Rightarrow> None)"

text \<open>\<open>step.toolCalls || step.tool_calls || []\<close>: an array is truthy even when it is empty.\<close>

definition stepCalls :: "'n step \<Rightarrow> 'n rawcall list" where
  "stepCalls step =
     (case toolCalls step of
        Some cs \<Rightarrow> cs
      | None \<Rightarrow> (case tool_calls step of Some cs \<Rightarrow> cs | None \<Rightarrow> []))"

definition assistantTurn :: "'n json option \<Rightarrow> 'n turn" where
  "assistantTurn c =
     \<lparr>turn_role = Assistant, turn_content = c, turn_tool_calls = None, turn_tool_call_id = None\<rparr>"

text \<open>What iteration \<open>i\<close> does with the step the provider resolved to.\<close>

definition handleStep ::
    "'n numops \<Rightarrow> config \<Rightarrow> (jsstring \<rightharpoonup> ('n, 'w) toolfn) \<Rightarrow> (nat \<Rightarrow> nat \<Rightarrow> jsstring) \<Rightarrow> nat
      \<Rightarrow> 'n step \<Rightarrow> ('n, 'w, 'p) state \<Rightarrow> (outcome \<times> ('n, 'w, 'p) state) option" where
  "handleStep ops cfg reg freshId i step st =
     (let calls = stepCalls step;
          reason = strOr (stopReason step) (strOr (stop_reason step) (ustr ''continue''))
      in if length calls > 0 then
           (let st1 = onThought (ustr ''[plan] Model proposed '' @ natToString (length calls)
                                  @ ustr '' tool call(s).'') st;
                normalizedCalls = normalizeCalls ops freshId i calls;
                st2 = push (callsTurn ops normalizedCalls) st1
            in case dispatchAll ops cfg reg normalizedCalls st2 of
                 None \<Rightarrow> None
               | Some (Some e, st3) \<Rightarrow> Some (Throw e, st3)
               | Some (None, st3) \<Rightarrow> Some (Continue, st3))
         else
           (case textContent (content step) of
              Some c \<Rightarrow>
                (let st1 = onThought (ustr ''[reflect] Model produced content. stopReason='' @ reason) st;
                     st2 = onMessage (ustr ''agent'') c st1;
                     st3 = push (assistantTurn (content step)) st2
                 in Some (if isFinal reason then Return else Continue, st3))
            | None \<Rightarrow>
                Some (Continue,
                  push (assistantTurn (Some (JStr replanMessage)))
                    (onThought (ustr ''[plan] Model produced no content and no tool. Replanning.'') st))))"

text \<open>
  An iteration: the provider is asked for the next step (a rejection ends the run with its
  exception), and the step is handled.
\<close>

definition iteration ::
    "'n numops \<Rightarrow> config \<Rightarrow> (jsstring \<rightharpoonup> ('n, 'w) toolfn) \<Rightarrow> (nat \<Rightarrow> nat \<Rightarrow> jsstring)
      \<Rightarrow> ('n turn list \<Rightarrow> 'p \<Rightarrow> (exn + 'n step) \<times> 'p) \<Rightarrow> nat
      \<Rightarrow> ('n, 'w, 'p) state \<Rightarrow> (outcome \<times> ('n, 'w, 'p) state) option" where
  "iteration ops cfg reg freshId provider i st =
     (case provider (history st) (provider_state st) of
        (Inl e, p) \<Rightarrow> Some (Throw e, st\<lparr>provider_state := p\<rparr>)
      | (Inr step, p) \<Rightarrow> handleStep ops cfg reg freshId i step (st\<lparr>provider_state := p\<rparr>))"

text \<open>
  \<open>for (let i = 0; i < this.maxTurns; i++)\<close>, with \<open>n\<close> the turns that are left, and the
  statement after the loop, after which \<open>run\<close> returns.
\<close>

fun loop ::
    "'n numops \<Rightarrow> config \<Rightarrow> (jsstring \<rightharpoonup> ('n, 'w) toolfn) \<Rightarrow> (nat \<Rightarrow> nat \<Rightarrow> jsstring)
      \<Rightarrow> ('n turn list \<Rightarrow> 'p \<Rightarrow> (exn + 'n step) \<times> 'p) \<Rightarrow> nat \<Rightarrow> nat
      \<Rightarrow> ('n, 'w, 'p) state \<Rightarrow> (outcome \<times> ('n, 'w, 'p) state) option" where
  "loop ops cfg reg freshId provider i 0 st = Some (Return, onMessage (ustr ''agent'') stuckMessage st)"
| "loop ops cfg reg freshId provider i (Suc n) st =
     (case iteration ops cfg reg freshId provider i st of
        None \<Rightarrow> None
      | Some (Continue, st') \<Rightarrow> loop ops cfg reg freshId provider (Suc i) n st'
      | Some (out, st') \<Rightarrow> Some (out, st'))"

text \<open>\<open>run(userInput)\<close>, from the world and the provider state at its start.\<close>

definition run ::
    "'n numops \<Rightarrow> config \<Rightarrow> ('n, 'w) toolfn option list \<Rightarrow> (nat \<Rightarrow> nat \<Rightarrow> jsstring)
      \<Rightarrow> ('n turn list \<Rightarrow> 'p \<Rightarrow> (exn + 'n step) \<times> 'p) \<Rightarrow> jsstring \<Rightarrow> 'w \<Rightarrow> 'p
      \<Rightarrow> (outcome \<times> ('n, 'w, 'p) state) option" where
  "run ops cfg tools freshId provider userInput w p =
     loop ops cfg (buildRegistry tools) freshId provider 0 (maxTurns cfg)
       (onMessage (ustr ''user'') userInput
          \<lparr>history = [\<lparr>turn_role = User, turn_content = Some (JStr userInput),
                       turn_tool_calls = None, turn_tool_call_id = None\<rparr>],
           thoughts = [], messages = [], world = w, provider_state = p\<rparr>)"

text \<open>
  The tools of a registry are readable when none of them fails with a value for which the
  \<open>catch\<close> block raises.
\<close>

definition readable :: "(jsstring \<rightharpoonup> ('n, 'w) toolfn) \<Rightarrow> bool" where
  "readable reg =
     (\<forall>name fn args w e. reg name = Some fn \<longrightarrow> fst (implementation fn args w) \<noteq> Unreadable e)"

subsection \<open>The shape of a history\<close>

text \<open>
  \<open>checkHistory ids h\<close>: every assistant turn of \<open>h\<close> has a string as content, and the
  \<open>tool_call_id\<close> of every tool turn is an \<open>id\<close> of the \<open>tool_calls\<close> of the last
  assistant turn before it (\<open>ids\<close> are those of the last assistant turn before \<open>h\<close>).
\<close>

definition isString :: "'n json option \<Rightarrow> bool" where
  "isString v = (case v of Some (JStr s) \<Rightarrow> True | _ \<Rightarrow> False)"

definition issuedIds :: "'n turn \<Rightarrow> 'n json list" where
  "issuedIds t = (case turn_tool_calls t of None \<Rightarrow> [] | Some cs \<Rightarrow> map ref_id cs)"

fun checkHistory :: "'n json list \<Rightarrow> 'n turn list \<Rightarrow> bool" where
  "checkHistory ids [] = True"
| "checkHistory ids (t # ts) =
     (case turn_role t of
        User \<Rightarrow> checkHistory ids ts
      | Assistant \<Rightarrow> isString (turn_content t) \<and> checkHistory (issuedIds t) ts
      | Tool \<Rightarrow>
          (case turn_tool_call_id t of None \<Rightarrow> False | Some i \<Rightarrow> i \<in> set ids)
          \<and> checkHistory ids ts)"

text \<open>The \<open>ids\<close> of the last assistant turn of a history.\<close>

fun lastIds :: "'n json list \<Rightarrow> 'n turn list \<Rightarrow> 'n json list" where
  "lastIds ids [] = ids"
| "lastIds ids (t # ts) = lastIds (if turn_role t = Assistant then issuedIds t else ids) ts"

subsection \<open>Providers and tools for examples\<close>

text \<open>
  A provider wrapped so that its state also counts the calls of \<open>getCompletion\<close>.
\<close>

definition counting ::
    "('n turn list \<Rightarrow> 'p \<Rightarrow> (exn + 'n step) \<times> 'p)
      \<Rightarrow> ('n turn list \<Rightarrow> 'p \<times> nat \<Rightarrow> (exn + 'n step) \<times> ('p \<times> nat))" where
  "counting provider h pn =
     (case provider h (fst pn) of (r, p') \<Rightarrow> (r, (p', Suc (snd pn))))"

text \<open>A provider stub that always resolves to the same step.\<close>

definition stubProvider :: "'n step \<Rightarrow> 'n turn list \<Rightarrow> unit \<Rightarrow> (exn + 'n step) \<times> unit" where
  "stubProvider step h u = (Inr step, ())"

text \<open>
  A provider that hands the planner texts of a script, one per call, to
  \<open>tryParseToolCall\<close>, as the providers of llm\_providers.js do with the text of a
  response; after the script it reports an error as content.
\<close>

definition scriptedProvider ::
    "'n numops \<Rightarrow> (nat \<Rightarrow> nat) \<Rightarrow> jsstring list \<Rightarrow> 'n turn list \<Rightarrow> nat \<Rightarrow> (exn + 'n step) \<times> nat" where
  "scriptedProvider ops clock texts h n =
     (if n < length texts then (Inr (tryParseToolCall ops clock (trim (texts ! n))), Suc n)
      else (Inr (contentStep (ustr ''[ProviderError] unknown error'') (ustr ''continue'')), Suc n))"

text \<open>A tool that resolves to the JSON text of its arguments.\<close>

definition echoTool :: "jsstring \<Rightarrow> (int, unit) toolfn" where
  "echoTool name =
     \<lparr>fn_name = name, fn_description = [], fn_usage = [],
      implementation = (\<lambda>args w. (Resolved [] (VStr (stringifyJson intNumops args)), w))\<rparr>"

text \<open>Values for examples: a registry with one tool, a call, a state and two steps.\<close>

definition calculatorRegistry :: "jsstring \<rightharpoonup> (int, unit) toolfn" where
  "calculatorRegistry = buildRegistry [Some (echoTool (ustr ''calculator''))]"


definition emptyState :: "(int, unit, unit) state" where
  "emptyState = \<lparr>history = [], thoughts = [], messages = [], world = (), provider_state = ()\<rparr>"

definition callsAndContentStep :: "int step" where
  "callsAndContentStep =
     \<lparr>toolCalls = Some [parsedCall (Some (JStr (ustr ''c1''))) (Some (JStr (ustr ''calculator'')))
                         (JObj [(ustr ''expression'', JStr (ustr ''2+2''))])],
      tool_calls = None, stopReason = Some (ustr ''final''), stop_reason = None,
      content = Some (JStr (ustr ''All done.''))\<rparr>"

definition thinkingStep :: "int step" where
  "thinkingStep = contentStep (ustr ''Thinking'') (ustr ''continue'')"

text \<open>A planner text with two calls of one tool and no \<open>id\<close>.\<close>

definition twoCallsText :: jsstring where
  \<open>twoCallsText = ustr ''{"tool_calls":[{"name":"calculator","arguments":{"expression":"1+1"}},{"name":"calculator","arguments":{"expression":"2+2"}}]}''\<close>


section \<open>Properties of the sanitizer\<close>

lemma replaceAllChar_id: "replaceAllChar c [c] s = s"
  by (induction s) (auto simp: replaceAllChar_def)

lemma escapeHtml_id: "escapeHtml s = s"
  by (simp add: escapeHtml_def ustr_def replaceAllChar_id)

lemma escAndTrunc_eq:
  "escAndTrunc limit (Some s) = (if length s > limit then take limit s @ [ellipsis] else s)"
  by (simp add: escAndTrunc_def escapeHtml_id)

lemma bindR_Inr: "bindR m f = Some (Inr y) \<Longrightarrow> \<exists>x. m = Some (Inr x) \<and> f x = Some (Inr y)"
  by (auto simp: bindR_def split: option.splits sum.splits)

lemma map_sum_Leaf: "map_sum id Leaf x \<noteq> Inr (Node a obj)"
  by (cases x) simp_all

lemma classify_Node:
  assumes "classify c stack v = Inr (Node a obj)"
  shows "v = VRef a \<and> a \<notin> set stack \<and> lookupObj (ser_heap c) a = Some obj
         \<and> length stack < stack_limit (ser_ops c) \<and> descends obj"
  using assms
  by (cases v)
     (auto simp: classify_def descends_def map_sum_Leaf
           split: option.splits jsbody.splits if_splits)

lemma prepare_Node:
  assumes "prepare c stack st key s = Inr (Node a obj, st1)"
  shows "a \<notin> set stack \<and> lookupObj (ser_heap c) a = Some obj
         \<and> length stack < stack_limit (ser_ops c) \<and> descends obj
         \<and> (\<exists>v0 v1. readSlot s = Inr v0 \<and> callToJSON (ser_heap c) key v0 = Inr v1
               \<and> ser_replacer c st key v1 = (VRef a, st1))"
proof -
  from assms obtain v0 where r: "readSlot s = Inr v0"
    by (cases "readSlot s") (simp_all add: prepare_def)
  from assms r obtain v1 where t: "callToJSON (ser_heap c) key v0 = Inr v1"
    by (cases "callToJSON (ser_heap c) key v0") (simp_all add: prepare_def)
  obtain v st1' where p: "ser_replacer c st key v1 = (v, st1')"
    by (cases "ser_replacer c st key v1")
  from assms r t p have m: "map_sum id (\<lambda>t. (t, st1')) (classify c stack v) = Inr (Node a obj, st1)"
    by (simp add: prepare_def)
  then have cl: "classify c stack v = Inr (Node a obj)" and st: "st1' = st1"
    by (cases "classify c stack v"; simp)+
  from classify_Node[OF cl] r t p st show ?thesis by auto
qed

lemma prepare_Leaf:
  assumes "prepare c stack st key s = Inr (Leaf r, st1)"
  shows "\<exists>v0 v1 v. readSlot s = Inr v0 \<and> callToJSON (ser_heap c) key v0 = Inr v1
               \<and> ser_replacer c st key v1 = (v, st1) \<and> classify c stack v = Inr (Leaf r)"
proof -
  from assms obtain v0 where r: "readSlot s = Inr v0"
    by (cases "readSlot s") (simp_all add: prepare_def)
  from assms r obtain v1 where t: "callToJSON (ser_heap c) key v0 = Inr v1"
    by (cases "callToJSON (ser_heap c) key v0") (simp_all add: prepare_def)
  obtain v st1' where p: "ser_replacer c st key v1 = (v, st1')"
    by (cases "ser_replacer c st key v1")
  from assms r t p have m: "map_sum id (\<lambda>t. (t, st1')) (classify c stack v) = Inr (Leaf r, st1)"
    by (simp add: prepare_def)
  then have cl: "classify c stack v = Inr (Leaf r)" and st: "st1' = st1"
    by (cases "classify c stack v"; simp)+
  from cl r t p st show ?thesis by auto
qed

lemma fuel_enough:
  fixes c :: "('n, 's) serializer"
  shows "distinct stack \<Longrightarrow> set stack \<subseteq> {..< length (ser_heap c)} \<Longrightarrow> length (ser_heap c) < fuel + length stack
     \<Longrightarrow> serializeProperty fuel c stack indent st key s \<noteq> None"
  and "distinct stack \<Longrightarrow> set stack \<subseteq> {..< length (ser_heap c)} \<Longrightarrow> length (ser_heap c) < fuel + length stack
     \<Longrightarrow> serializeEntries fuel c stack indent st ps \<noteq> None"
proof (induction fuel c stack indent st key s and fuel c stack indent st ps
       rule: serializeProperty_serializeEntries.induct)
  case (1 c stack indent st key s)
  have "card (set stack) \<le> card {..< length (ser_heap c)}"
    using 1 by (intro card_mono) auto
  then have "length stack \<le> length (ser_heap c)" using 1 by (simp add: distinct_card)
  with 1 show ?case by simp
next
  case (2 fuel c stack indent st key s)
  show ?case
  proof (cases "prepare c stack st key s")
    case (Inl e)
    then show ?thesis by simp
  next
    case (Inr b)
    obtain t st1 where b: "b = (t, st1)" by (cases b)
    show ?thesis
    proof (cases t)
      case (Leaf r)
      with Inr b show ?thesis by simp
    next
      case (Node a obj)
      from prepare_Node[OF Inr[unfolded b Node]]
      have a: "a \<notin> set stack" and obj: "lookupObj (ser_heap c) a = Some obj" by auto
      from obj have "a < length (ser_heap c)" by (auto simp: lookupObj_def split: if_splits)
      with a 2 have "serializeEntries fuel c (a # stack) (indent @ ser_gap c) st1 (entriesOf obj) \<noteq> None"
        by (intro "2.IH"[OF Inr b[symmetric] Node]) auto
      then show ?thesis using Inr b Node
        by (auto simp: bindR_def split: option.splits sum.splits)
    qed
  qed
next
  case (3 fuel c stack indent st)
  then show ?case by simp
next
  case (4 fuel c stack indent st k s ps)
  note IH = "4.IH" and prems = "4.prems"
  have p: "serializeProperty fuel c stack indent st k s \<noteq> None"
    using prems by (intro IH(1))
  show ?case
  proof (cases "serializeProperty fuel c stack indent st k s")
    case None
    with p show ?thesis by simp
  next
    case (Some r)
    show ?thesis
    proof (cases r)
      case (Inl e)
      with Some show ?thesis by (simp add: bindR_def)
    next
      case (Inr x)
      obtain strP st1 where x: "x = (strP, st1)" by (cases x)
      have "serializeEntries fuel c stack indent st1 ps \<noteq> None"
        using Some Inr x prems by (intro IH(2)) auto
      with Some Inr x show ?thesis
        by (auto simp: bindR_def split: option.splits sum.splits)
    qed
  qed
qed

lemma JSON_stringify_terminates: "JSON_stringify ops h rep st gap v \<noteq> None"
proof -
  let ?c = "\<lparr>ser_ops = ops, ser_heap = h, ser_replacer = rep, ser_gap = gap\<rparr>"
  have "serializeProperty (Suc (length h)) ?c [] [] st [] (Data v) \<noteq> None"
    by (rule fuel_enough(1)) simp_all
  then show ?thesis
    by (auto simp: JSON_stringify_def bindR_def split: option.splits sum.splits)
qed

lemma sanitizeObservation_total: "\<exists>out. sanitizeObservation ops limit h v = Some out"
proof (cases "JSON_stringify ops h (seenReplacer ops h) {} (ustr ''  '') v")
  case None
  then show ?thesis by (simp add: JSON_stringify_terminates)
next
  case (Some r)
  then show ?thesis
    by (cases v; cases r; simp add: sanitizeObservation_def split: sum.splits)
qed

lemma includesStr_iff: "includesStr s m \<longleftrightarrow> (\<exists>pre post. s = pre @ m @ post)"
proof (induction s)
  case Nil
  then show ?case by auto
next
  case (Cons c cs)
  show ?case
  proof
    assume "includesStr (c # cs) m"
    then consider "take (length m) (c # cs) = m" | "includesStr cs m" by auto
    then show "\<exists>pre post. c # cs = pre @ m @ post"
    proof cases
      case 1
      then have "c # cs = [] @ m @ drop (length m) (c # cs)"
        by (metis append_Nil append_take_drop_id)
      then show ?thesis by blast
    next
      case 2
      then obtain pre post where "cs = pre @ m @ post" using Cons by auto
      then have "c # cs = (c # pre) @ m @ post" by simp
      then show ?thesis by blast
    qed
  next
    assume "\<exists>pre post. c # cs = pre @ m @ post"
    then obtain pre post where e: "c # cs = pre @ m @ post" by auto
    show "includesStr (c # cs) m"
    proof (cases pre)
      case Nil
      with e have "take (length m) (c # cs) = m" by simp
      then show ?thesis by simp
    next
      case (Cons p pre')
      with e have "cs = pre' @ m @ post" by simp
      then show ?thesis using Cons.IH by auto
    qed
  qed
qed

lemma join_mem: "p \<in> set ps \<Longrightarrow> \<exists>pre post. join sep ps = pre @ p @ post"
proof (induction sep ps rule: join.induct)
  case (1 sep)
  then show ?case by simp
next
  case (2 sep x)
  then have "join sep [x] = [] @ p @ []" by simp
  then show ?case by blast
next
  case (3 sep x y ys)
  show ?case
  proof (cases "p = x")
    case True
    then have "join sep (x # y # ys) = [] @ p @ (sep @ join sep (y # ys))" by simp
    then show ?thesis by blast
  next
    case False
    with 3 obtain pre post where "join sep (y # ys) = pre @ p @ post" by auto
    then have "join sep (x # y # ys) = (x @ sep @ pre) @ p @ post" by simp
    then show ?thesis by blast
  qed
qed

lemma wrapJSON_mem:
  assumes "p \<in> set partial"
  shows "\<exists>pre post. wrapJSON opn cls stepback gap partial = pre @ p @ post"
proof -
  from join_mem[OF assms] obtain pre post where
    j1: "join (ustr '','') partial = pre @ p @ post" by blast
  from join_mem[OF assms] obtain pre2 post2 where
    j2: "join ([0x2C, 0x0A] @ (stepback @ gap)) partial = pre2 @ p @ post2" by blast
  from assms have ne: "partial \<noteq> []" by auto
  show ?thesis
  proof (cases "gap = []")
    case True
    then have "wrapJSON opn cls stepback gap partial = ([opn] @ pre) @ p @ (post @ [cls])"
      using ne j1 by (simp add: wrapJSON_def)
    then show ?thesis by blast
  next
    case False
    then have "wrapJSON opn cls stepback gap partial
        = ([opn, 0x0A] @ (stepback @ gap) @ pre2) @ p @ (post2 @ [0x0A] @ stepback @ [cls])"
      using ne j2 by (simp add: wrapJSON_def)
    then show ?thesis by blast
  qed
qed

lemma includes_trans:
  "includesStr b m \<Longrightarrow> a = pre @ b @ post \<Longrightarrow> includesStr a m"
proof -
  assume "includesStr b m" and a: "a = pre @ b @ post"
  then obtain p q where "b = p @ m @ q" by (auto simp: includesStr_iff)
  with a have "a = (pre @ p) @ m @ (q @ post)" by simp
  then show ?thesis unfolding includesStr_iff by blast
qed


lemma wrapObj_marker:
  assumes "(k, Some s) \<in> set strs" and "includesStr s m"
  shows "includesStr (wrapObj obj stepback gap strs) m"
proof (cases "\<exists>elems. obj_body obj = OArray elems")
  case False
  have "memberJSON gap k s \<in> set (concat (map (\<lambda>(k, strP). case strP of None \<Rightarrow> [] | Some s \<Rightarrow> [memberJSON gap k s]) strs))"
    using assms(1) by force
  from wrapJSON_mem[OF this, where opn="0x7B" and cls="0x7D" and stepback=stepback and gap=gap] obtain pre post where
    "wrapJSON 0x7B 0x7D stepback gap
       (concat (map (\<lambda>(k, strP). case strP of None \<Rightarrow> [] | Some s \<Rightarrow> [memberJSON gap k s]) strs))
       = pre @ memberJSON gap k s @ post" by blast
  then have w: "wrapObj obj stepback gap strs = pre @ memberJSON gap k s @ post"
    using False by (cases "obj_body obj") (simp_all add: wrapObj_def)
  have "memberJSON gap k s = (quoteJSONString k @ ustr '':'' @ (if gap = [] then [] else ustr '' '')) @ s @ []"
    by (simp add: memberJSON_def)
  then have "includesStr (memberJSON gap k s) m" using assms(2) includes_trans by blast
  then show ?thesis using w includes_trans by blast
next
  case True
  then obtain elems where OArray: "obj_body obj = OArray elems" by blast
  have "s \<in> set (map (\<lambda>(k, strP). case strP of None \<Rightarrow> ustr ''null'' | Some s \<Rightarrow> s) strs)"
    using assms(1) by force
  from wrapJSON_mem[OF this, where opn="0x5B" and cls="0x5D" and stepback=stepback and gap=gap] obtain pre post where
    w: "wrapObj obj stepback gap strs = pre @ s @ post"
    unfolding wrapObj_def OArray jsbody.case by blast
  then show ?thesis using assms(2) includes_trans by blast
qed

lemma quote_marker: "quoteJSONString circularMarker = [0x22] @ circularMarker @ [0x22]"
  by (simp add: quoteJSONString_def circularMarker_def ustr_def quoteOne_def
      isHighSurrogate_def isLowSurrogate_def)

lemma includes_quote_marker: "includesStr (quoteJSONString circularMarker) circularMarker"
  unfolding includesStr_iff quote_marker by blast

lemma includesStr_snoc:
  assumes "m \<noteq> []" and "e \<notin> set m"
  shows "includesStr (xs @ [e]) m \<longleftrightarrow> includesStr xs m"
proof
  assume "includesStr (xs @ [e]) m"
  then obtain pre post where eq: "xs @ [e] = pre @ m @ post" by (auto simp: includesStr_iff)
  show "includesStr xs m"
  proof (cases post rule: rev_cases)
    case Nil
    with eq have "xs @ [e] = pre @ m" by simp
    with assms(1) have "last m = e" by (metis last_appendR last_snoc)
    with assms show ?thesis using last_in_set by blast
  next
    case (snoc post' x)
    with eq have "xs @ [e] = (pre @ m @ post') @ [x]" by simp
    then have "xs = pre @ m @ post'" by (simp only: append1_eq_conv)
    then show ?thesis unfolding includesStr_iff by blast
  qed
next
  assume "includesStr xs m"
  then show "includesStr (xs @ [e]) m" using includes_trans[of xs m "xs @ [e]" "[]" "[e]"] by simp
qed

lemma quoteChars_plain:
  "\<forall>c \<in> set s. quoteOne c = [c] \<and> \<not> isHighSurrogate c \<Longrightarrow> quoteChars s = s"
  by (induction s rule: quoteChars.induct) auto

lemma includesStr_hd: "includesStr s m \<Longrightarrow> m \<noteq> [] \<Longrightarrow> hd m \<in> set s"
  by (auto simp: includesStr_iff neq_Nil_conv)


lemma seenReplacer_mono: "seenReplacer ops h seen key v0 = (v, seen') \<Longrightarrow> seen \<subseteq> seen'"
  by (auto simp: seenReplacer_def split: jsvalue.splits if_splits)

lemma seenReplacer_not_big: "seenReplacer ops h seen key v0 = (v, seen') \<Longrightarrow> v \<noteq> VBigInt i"
  by (auto simp: seenReplacer_def split: jsvalue.splits if_splits)

lemma seenReplacer_ref:
  "seenReplacer ops h seen key v0 = (VRef a, seen') \<Longrightarrow>
     v0 = VRef a \<and> (if isFunction h a then seen' = seen else a \<notin> seen \<and> seen' = insert a seen)"
  by (auto simp: seenReplacer_def split: jsvalue.splits if_splits)

lemma seenReplacer_seen:
  "a \<in> seen \<Longrightarrow> \<not> isFunction h a \<Longrightarrow> seenReplacer ops h seen key (VRef a) = (VStr circularMarker, seen)"
  by (simp add: seenReplacer_def)

lemma seenReplacer_fresh:
  "a \<notin> seen \<Longrightarrow> \<not> isFunction h a \<Longrightarrow> seenReplacer ops h seen key (VRef a) = (VRef a, insert a seen)"
  by (simp add: seenReplacer_def)

lemma prepare_mono:
  assumes "ser_replacer c = seenReplacer ops hh" and "prepare c stack st key s = Inr (t, st1)"
  shows "st \<subseteq> st1"
proof (cases t)
  case (Leaf r)
  from prepare_Leaf[OF assms(2)[unfolded Leaf]] assms(1) show ?thesis
    using seenReplacer_mono by fastforce
next
  case (Node a obj)
  from prepare_Node[OF assms(2)[unfolded Node]] assms(1) show ?thesis
    using seenReplacer_mono by fastforce
qed

lemma seen_mono:
  fixes c :: "('n, nat set) serializer"
  shows "ser_replacer c = seenReplacer ops hh
      \<Longrightarrow> serializeProperty fuel c stack indent st key s = Some (Inr (strP, st')) \<Longrightarrow> st \<subseteq> st'"
  and "ser_replacer c = seenReplacer ops hh
      \<Longrightarrow> serializeEntries fuel c stack indent st ps = Some (Inr (strs, st')) \<Longrightarrow> st \<subseteq> st'"
proof (induction fuel c stack indent st key s and fuel c stack indent st ps
       arbitrary: strP st' and strs st' rule: serializeProperty_serializeEntries.induct)
  case (1 c stack indent st key s)
  then show ?case by simp
next
  case (2 fuel c stack indent st key s)
  show ?case
  proof (cases "prepare c stack st key s")
    case (Inl e)
    with "2.prems" show ?thesis by simp
  next
    case (Inr b)
    obtain t st1 where b: "b = (t, st1)" by (cases b)
    have m: "st \<subseteq> st1" using prepare_mono[OF "2.prems"(1) Inr[unfolded b]] .
    show ?thesis
    proof (cases t)
      case (Leaf r)
      with Inr b "2.prems"(2) m show ?thesis by simp
    next
      case (Node a obj)
      from "2.prems"(2) Inr b Node have
        "bindR (serializeEntries fuel c (a # stack) (indent @ ser_gap c) st1 (entriesOf obj))
           (\<lambda>(strs, st2). Some (Inr (Some (wrapObj obj indent (ser_gap c) strs), st2)))
         = Some (Inr (strP, st'))" by simp
      from bindR_Inr[OF this] obtain strs st2 where
        e: "serializeEntries fuel c (a # stack) (indent @ ser_gap c) st1 (entriesOf obj) = Some (Inr (strs, st2))"
        and "st' = st2" by auto
      with "2.IH"[OF Inr b[symmetric] Node "2.prems"(1) e] m show ?thesis by simp
    qed
  qed
next
  case (3 fuel c stack indent st)
  then show ?case by simp
next
  case (4 fuel c stack indent st k s ps)
  from bindR_Inr[OF "4.prems"(2)[unfolded serializeEntries.simps]] obtain strP1 st1 where
    p: "serializeProperty fuel c stack indent st k s = Some (Inr (strP1, st1))"
    and r: "bindR (serializeEntries fuel c stack indent st1 ps)
              (\<lambda>(rest, st2). Some (Inr ((k, strP1) # rest, st2))) = Some (Inr (strs, st'))"
    by auto
  from bindR_Inr[OF r] obtain rest st2 where
    e: "serializeEntries fuel c stack indent st1 ps = Some (Inr (rest, st2))" and "st' = st2"
    by auto
  with "4.IH"(1)[OF "4.prems"(1) p] "4.IH"(2)[OF p refl "4.prems"(1) e] show ?case by simp
qed

lemma entries_member:
  fixes c :: "('n, nat set) serializer"
  assumes "ser_replacer c = seenReplacer ops hh"
  shows "serializeEntries fuel c stack indent st ps = Some (Inr (strs, st')) \<Longrightarrow> (k, s) \<in> set ps
     \<Longrightarrow> \<exists>st0 strP st1. st \<subseteq> st0
           \<and> serializeProperty fuel c stack indent st0 k s = Some (Inr (strP, st1))
           \<and> (k, strP) \<in> set strs"
proof (induction ps arbitrary: st strs)
  case Nil
  then show ?case by simp
next
  case (Cons p ps)
  obtain k' s' where p: "p = (k', s')" by (cases p)
  from bindR_Inr[OF Cons.prems(1)[unfolded p serializeEntries.simps]] obtain strP1 st1 where
    f: "serializeProperty fuel c stack indent st k' s' = Some (Inr (strP1, st1))"
    and r: "bindR (serializeEntries fuel c stack indent st1 ps)
              (\<lambda>(rest, st2). Some (Inr ((k', strP1) # rest, st2))) = Some (Inr (strs, st'))"
    by auto
  from bindR_Inr[OF r] obtain rest where
    e: "serializeEntries fuel c stack indent st1 ps = Some (Inr (rest, st'))"
    and strs: "strs = (k', strP1) # rest" by auto
  show ?case
  proof (cases "(k, s) = (k', s')")
    case True
    then have "st \<subseteq> st \<and> serializeProperty fuel c stack indent st k s = Some (Inr (strP1, st1))
           \<and> (k, strP1) \<in> set strs" using f strs by simp
    then show ?thesis by blast
  next
    case False
    with Cons.prems(2) p have "(k, s) \<in> set ps" by auto
    from Cons.IH[OF e this] obtain st0 strP st1' where
      a: "st1 \<subseteq> st0" and b: "serializeProperty fuel c stack indent st0 k s = Some (Inr (strP, st1'))"
      and d: "(k, strP) \<in> set rest" by blast
    have "st \<subseteq> st1" using seen_mono(1)[OF assms f] .
    with a have "st \<subseteq> st0" by blast
    moreover have "(k, strP) \<in> set strs" using d strs by simp
    ultimately show ?thesis using b by blast
  qed
qed


lemma descends_not_function:
  "lookupObj h a = Some obj \<Longrightarrow> descends obj \<Longrightarrow> \<not> isFunction h a"
  by (auto simp: isFunction_def descends_def split: jsbody.splits)

lemma ordinary_obj:
  "ordinary h a \<Longrightarrow> \<exists>obj. lookupObj h a = Some obj \<and> descends obj \<and> obj_toJSON obj = None"
  by (auto simp: ordinary_def split: option.splits)

lemma ordinary_toJSON: "ordinary h a \<Longrightarrow> callToJSON h key (VRef a) = Inr (VRef a)"
  by (auto simp: ordinary_def callToJSON_def split: option.splits)

lemma classify_descends:
  "lookupObj (ser_heap c) a = Some obj \<Longrightarrow> descends obj \<Longrightarrow> classify c stack (VRef a) \<noteq> Inr (Leaf r)"
  by (auto simp: classify_def descends_def split: jsbody.splits)

lemma holds_entry:
  "holds h x y \<Longrightarrow> lookupObj h x = Some obj \<Longrightarrow> \<exists>k. (k, Data (VRef y)) \<in> set (entriesOf obj)"
  by (auto simp: holds_def list_ex_iff split: slot.splits jsvalue.splits)

lemma chain_last: "chain h x ys \<Longrightarrow> ys \<noteq> [] \<Longrightarrow> ordinary h (last ys)"
  by (induction ys arbitrary: x) (auto split: if_splits)

lemma classify_marker:
  "classify c stack (VStr circularMarker) = Inr (Leaf (Some (quoteJSONString circularMarker)))"
  by (simp add: classify_def serializePrimitive_def)

text \<open>
  Serialising an ordinary object that is not in \<open>seen\<close> descends into it; one that is in
  \<open>seen\<close> is written as the marker.
\<close>

lemma property_seen:
  fixes c :: "('n, nat set) serializer"
  assumes rep: "ser_replacer c = seenReplacer ops (ser_heap c)"
    and ord: "ordinary (ser_heap c) y" and seen: "y \<in> st"
    and run: "serializeProperty fuel c stack indent st k (Data (VRef y)) = Some (Inr (strP, st'))"
  shows "strP = Some (quoteJSONString circularMarker)"
proof -
  from ordinary_obj[OF ord] obtain oy where oy: "lookupObj (ser_heap c) y = Some oy" "descends oy" by blast
  have nf: "\<not> isFunction (ser_heap c) y" using descends_not_function[OF oy] .
  obtain f where fuel: "fuel = Suc f" using run by (cases fuel) simp_all
  have "prepare c stack st k (Data (VRef y)) = Inr (Leaf (Some (quoteJSONString circularMarker)), st)"
    by (simp add: prepare_def readSlot_def ordinary_toJSON[OF ord] rep seenReplacer_seen[OF seen nf]
        classify_marker)
  with run fuel show ?thesis by simp
qed

lemma property_fresh:
  fixes c :: "('n, nat set) serializer"
  assumes rep: "ser_replacer c = seenReplacer ops (ser_heap c)"
    and ord: "ordinary (ser_heap c) y" and fresh: "y \<notin> st"
    and oy: "lookupObj (ser_heap c) y = Some oy"
    and run: "serializeProperty fuel c stack indent st k (Data (VRef y)) = Some (Inr (strP, st'))"
  shows "\<exists>f strs. serializeEntries f c (y # stack) (indent @ ser_gap c) (insert y st) (entriesOf oy)
                    = Some (Inr (strs, st'))
               \<and> strP = Some (wrapObj oy indent (ser_gap c) strs)"
proof -
  from ordinary_obj[OF ord] oy have d: "descends oy" by auto
  have nf: "\<not> isFunction (ser_heap c) y" using descends_not_function[OF oy d] .
  obtain f where fuel: "fuel = Suc f" using run by (cases fuel) simp_all
  have pre: "prepare c stack st k (Data (VRef y))
        = map_sum id (\<lambda>t. (t, insert y st)) (classify c stack (VRef y))"
    by (simp add: prepare_def readSlot_def ordinary_toJSON[OF ord] rep seenReplacer_fresh[OF fresh nf])
  show ?thesis
  proof (cases "classify c stack (VRef y)")
    case (Inl e)
    with pre run fuel show ?thesis by simp
  next
    case (Inr t)
    show ?thesis
    proof (cases t)
      case (Leaf r)
      with Inr classify_descends[OF oy d] show ?thesis by simp
    next
      case (Node a obj)
      from classify_Node[OF Inr[unfolded Node]] oy have a: "a = y" "obj = oy" by auto
      from run fuel pre Inr Node a have
        "bindR (serializeEntries f c (y # stack) (indent @ ser_gap c) (insert y st) (entriesOf oy))
           (\<lambda>(strs, st2). Some (Inr (Some (wrapObj oy indent (ser_gap c) strs), st2)))
         = Some (Inr (strP, st'))" by simp
      from bindR_Inr[OF this] show ?thesis by auto
    qed
  qed
qed

lemma chain_marker:
  fixes c :: "('n, nat set) serializer"
  assumes rep: "ser_replacer c = seenReplacer ops (ser_heap c)"
  shows "chain (ser_heap c) x ys \<Longrightarrow> ys \<noteq> [] \<Longrightarrow> last ys \<in> st
     \<Longrightarrow> lookupObj (ser_heap c) x = Some obj
     \<Longrightarrow> serializeEntries fuel c stack indent st (entriesOf obj) = Some (Inr (strs, st'))
     \<Longrightarrow> includesStr (wrapObj obj ind gap strs) circularMarker"
proof (induction ys arbitrary: x obj fuel stack indent st strs st' ind gap)
  case Nil
  then show ?case by simp
next
  case (Cons y ys)
  from Cons.prems(1) have hold: "holds (ser_heap c) x y" and ord: "ordinary (ser_heap c) y"
    and ch: "chain (ser_heap c) y ys" by auto
  from holds_entry[OF hold Cons.prems(4)] obtain k where
    k: "(k, Data (VRef y)) \<in> set (entriesOf obj)" by blast
  from entries_member[OF rep Cons.prems(5) k] obtain st0 strP st1 where
    sub: "st \<subseteq> st0"
    and run: "serializeProperty fuel c stack indent st0 k (Data (VRef y)) = Some (Inr (strP, st1))"
    and mem: "(k, strP) \<in> set strs" by blast
  have "\<exists>s. strP = Some s \<and> includesStr s circularMarker"
  proof (cases "y \<in> st0")
    case True
    from property_seen[OF rep ord True run] show ?thesis
      using includes_quote_marker by simp
  next
    case False
    have ne: "ys \<noteq> []"
    proof
      assume "ys = []"
      with Cons.prems(3) sub have "y \<in> st0" by auto
      with False show False by simp
    qed
    from ordinary_obj[OF ord] obtain oy where oy: "lookupObj (ser_heap c) y = Some oy" by blast
    from property_fresh[OF rep ord False oy run] obtain f strs2 where
      e: "serializeEntries f c (y # stack) (indent @ ser_gap c) (insert y st0) (entriesOf oy)
             = Some (Inr (strs2, st1))"
      and sp: "strP = Some (wrapObj oy indent (ser_gap c) strs2)" by blast
    have "last ys \<in> insert y st0" using Cons.prems(3) sub ne by auto
    from Cons.IH[OF ch ne this oy e] sp show ?thesis by simp
  qed
  then obtain s where "strP = Some s" "includesStr s circularMarker" by blast
  with mem show ?case using wrapObj_marker by blast
qed

text \<open>
  An object on a cycle of such references: if its serialisation does not raise, the text
  holds the marker.
\<close>

lemma cycle_json:
  assumes ch: "chain h r ys" and ne: "ys \<noteq> []" and last: "last ys = r"
    and run: "JSON_stringify ops h (seenReplacer ops h) {} gap (VRef r) = Some (Inr res)"
  shows "\<exists>json. res = Some json \<and> includesStr json circularMarker"
proof -
  let ?c = "\<lparr>ser_ops = ops, ser_heap = h, ser_replacer = seenReplacer ops h, ser_gap = gap\<rparr>"
  have rep: "ser_replacer ?c = seenReplacer ops (ser_heap ?c)" by simp
  have ord: "ordinary (ser_heap ?c) r" using chain_last[OF ch ne] last by simp
  from ordinary_obj[OF ord] obtain obj where obj: "lookupObj (ser_heap ?c) r = Some obj" by auto
  from run obtain st' where
    top: "serializeProperty (Suc (length h)) ?c [] [] {} [] (Data (VRef r)) = Some (Inr (res, st'))"
    unfolding JSON_stringify_def by (auto dest!: bindR_Inr)
  from property_fresh[OF rep ord _ obj top] obtain f strs where
    e: "serializeEntries f ?c [r] ([] @ ser_gap ?c) (insert r {}) (entriesOf obj) = Some (Inr (strs, st'))"
    and res: "res = Some (wrapObj obj [] (ser_gap ?c) strs)" by auto
  have "chain (ser_heap ?c) r ys" using ch by simp
  from chain_marker[OF rep this ne _ obj e, of "[]" "ser_gap ?c"] last res
  show ?thesis by simp
qed


lemma room_on_stack:
  assumes "distinct stack" and "set stack \<subseteq> {..< n}" and "a < n" and "a \<notin> set stack"
  shows "length stack < n"
proof -
  have "card (set (a # stack)) \<le> card {..< n}"
    using assms by (intro card_mono) auto
  then show ?thesis using assms by (simp add: distinct_card)
qed

lemma plainHeap_obj:
  "plainHeap h \<Longrightarrow> a < length h \<Longrightarrow> plainObj h (h ! a)"
  by (simp add: plainHeap_def list_all_length)

text \<open>On plain data within the depth of the stack, no step of the serialiser raises.\<close>

lemma prepare_plain:
  fixes c :: "('n, nat set) serializer"
  assumes rep: "ser_replacer c = seenReplacer ops (ser_heap c)"
    and plain: "plainHeap (ser_heap c)" and slot: "plainSlot (ser_heap c) s"
    and sub: "set stack \<subseteq> seen" and dist: "distinct stack"
    and bound: "set stack \<subseteq> {..< length (ser_heap c)}"
    and room: "length (ser_heap c) \<le> stack_limit (ser_ops c)"
  shows "(\<exists>r st1. prepare c stack seen key s = Inr (Leaf r, st1))
       \<or> (\<exists>a. a < length (ser_heap c) \<and> a \<notin> seen
              \<and> prepare c stack seen key s = Inr (Node a (ser_heap c ! a), insert a seen))"
proof -
  from slot obtain v0 where s: "s = Data v0" and valid: "validValue (ser_heap c) v0"
    by (cases s) (simp_all add: plainSlot_def)
  have tj: "callToJSON (ser_heap c) key v0 = Inr v0"
  proof (cases v0)
    case (VRef a)
    with valid have a: "a < length (ser_heap c)" by (simp add: validValue_def)
    from plainHeap_obj[OF plain a] have "obj_toJSON (ser_heap c ! a) = None"
      by (simp add: plainObj_def split: option.splits)
    with VRef a show ?thesis by (simp add: callToJSON_def lookupObj_def)
  qed (simp_all add: callToJSON_def)
  obtain v st1 where r: "seenReplacer ops (ser_heap c) seen key v0 = (v, st1)"
    by (cases "seenReplacer ops (ser_heap c) seen key v0")
  have pre: "prepare c stack seen key s = map_sum id (\<lambda>t. (t, st1)) (classify c stack v)"
    by (simp add: prepare_def s readSlot_def tj rep r)
  show ?thesis
  proof (cases "\<exists>a. v = VRef a")
    case False
    have "\<forall>i. v \<noteq> VBigInt i" using seenReplacer_not_big[OF r] by simp
    with False obtain x where "serializePrimitive (ser_ops c) v = Inr x"
      by (cases v) (simp_all add: serializePrimitive_def)
    with False have "classify c stack v = Inr (Leaf x)"
      by (cases v) (simp_all add: classify_def)
    with pre show ?thesis by simp
  next
    case True
    then obtain a where v: "v = VRef a" by blast
    from seenReplacer_ref[OF r[unfolded v]] have v0: "v0 = VRef a"
      and st: "if isFunction (ser_heap c) a then st1 = seen else a \<notin> seen \<and> st1 = insert a seen"
      by auto
    from v0 valid have a: "a < length (ser_heap c)" by (simp add: validValue_def)
    then have lk: "lookupObj (ser_heap c) a = Some (ser_heap c ! a)" by (simp add: lookupObj_def)
    from plainHeap_obj[OF plain a] have nb: "\<forall>p. obj_body (ser_heap c ! a) \<noteq> OBoxed p"
      by (auto simp: plainObj_def)
    show ?thesis
    proof (cases "isFunction (ser_heap c) a")
      case True
      then have "obj_body (ser_heap c ! a) = OFunction"
        using lk by (auto simp: isFunction_def split: jsbody.splits)
      then have "classify c stack v = Inr (Leaf None)" using v lk by (simp add: classify_def)
      with pre show ?thesis by simp
    next
      case False
      with st have fresh: "a \<notin> seen" and st1: "st1 = insert a seen" by auto
      from fresh sub have ns: "a \<notin> set stack" by auto
      have "length stack < length (ser_heap c)" using room_on_stack[OF dist bound a ns] .
      with room have rm: "\<not> stack_limit (ser_ops c) \<le> length stack" by simp
      from False lk have nfun: "obj_body (ser_heap c ! a) \<noteq> OFunction"
        by (auto simp: isFunction_def)
      have "classify c stack v = Inr (Node a (ser_heap c ! a))"
        using v lk nb nfun rm ns by (cases "obj_body (ser_heap c ! a)") (simp_all add: classify_def)
      with pre st1 a fresh show ?thesis by simp
    qed
  qed
qed

lemma plain_run:
  fixes c :: "('n, nat set) serializer"
  shows "ser_replacer c = seenReplacer ops (ser_heap c) \<Longrightarrow> plainHeap (ser_heap c)
      \<Longrightarrow> plainSlot (ser_heap c) s
      \<Longrightarrow> set stack \<subseteq> seen \<Longrightarrow> distinct stack \<Longrightarrow> set stack \<subseteq> {..< length (ser_heap c)}
      \<Longrightarrow> length (ser_heap c) \<le> stack_limit (ser_ops c)
      \<Longrightarrow> serializeProperty fuel c stack indent seen key s = Some r
      \<Longrightarrow> \<exists>x. r = Inr x"
  and "ser_replacer c = seenReplacer ops (ser_heap c) \<Longrightarrow> plainHeap (ser_heap c)
      \<Longrightarrow> list_all (\<lambda>(k, s). plainSlot (ser_heap c) s) ps
      \<Longrightarrow> set stack \<subseteq> seen \<Longrightarrow> distinct stack \<Longrightarrow> set stack \<subseteq> {..< length (ser_heap c)}
      \<Longrightarrow> length (ser_heap c) \<le> stack_limit (ser_ops c)
      \<Longrightarrow> serializeEntries fuel c stack indent seen ps = Some rs
      \<Longrightarrow> \<exists>x. rs = Inr x"
proof (induction fuel c stack indent seen key s and fuel c stack indent seen ps
       arbitrary: r and rs rule: serializeProperty_serializeEntries.induct)
  case (1 c stack indent st key s)
  then show ?case by simp
next
  case (2 fuel c stack indent st key s)
  note p = "2.prems"
  from prepare_plain[OF p(1) p(2) p(3) p(4) p(5) p(6) p(7), of key]
  consider (leaf) x st1 where "prepare c stack st key s = Inr (Leaf x, st1)"
    | (node) a where "a < length (ser_heap c)" "a \<notin> st"
        "prepare c stack st key s = Inr (Node a (ser_heap c ! a), insert a st)"
    by blast
  then show ?case
  proof cases
    case leaf
    with p(8) show ?thesis by auto
  next
    case node
    let ?obj = "ser_heap c ! a"
    from node(2) p(4) have ns: "a \<notin> set stack" by auto
    have ents: "list_all (\<lambda>(k, s). plainSlot (ser_heap c) s) (entriesOf ?obj)"
      using plainHeap_obj[OF p(2) node(1)] by (simp add: plainObj_def)
    have run: "bindR (serializeEntries fuel c (a # stack) (indent @ ser_gap c) (insert a st) (entriesOf ?obj))
                 (\<lambda>(strs, st2). Some (Inr (Some (wrapObj ?obj indent (ser_gap c) strs), st2))) = Some r"
      using p(8) node(3) by simp
    then obtain rs where rs: "serializeEntries fuel c (a # stack) (indent @ ser_gap c) (insert a st) (entriesOf ?obj) = Some rs"
      by (cases "serializeEntries fuel c (a # stack) (indent @ ser_gap c) (insert a st) (entriesOf ?obj)")
         (simp_all add: bindR_def)
    have "\<exists>x. rs = Inr x"
    proof (rule "2.IH"[OF node(3) refl refl p(1) p(2) ents _ _ _ p(7) rs])
      show "set (a # stack) \<subseteq> insert a st" using p(4) by auto
      show "distinct (a # stack)" using p(5) ns by simp
      show "set (a # stack) \<subseteq> {..< length (ser_heap c)}" using p(6) node(1) by simp
    qed
    then obtain x where "rs = Inr x" by blast
    with run rs show ?thesis by (cases x) (auto simp: bindR_def)
  qed
next
  case (3 fuel c stack indent st)
  then show ?case by auto
next
  case (4 fuel c stack indent st k s ps)
  note p = "4.prems"
  from p(8) obtain r where r: "serializeProperty fuel c stack indent st k s = Some r"
    by (auto simp: bindR_def split: option.splits)
  have vs: "plainSlot (ser_heap c) s" and vps: "list_all (\<lambda>(k, s). plainSlot (ser_heap c) s) ps"
    using p(3) by auto
  from "4.IH"(1)[OF p(1) p(2) vs p(4) p(5) p(6) p(7) r]
  obtain strP st1 where r1: "r = Inr (strP, st1)" by fastforce
  have m1: "st \<subseteq> st1" using seen_mono(1)[OF p(1) r[unfolded r1]] .
  from p(8) r r1 obtain rs' where
    rs': "serializeEntries fuel c stack indent st1 ps = Some rs'"
    by (auto simp: bindR_def split: option.splits)
  have sub: "set stack \<subseteq> st1" using m1 p(4) by auto
  from "4.IH"(2)[OF r[unfolded r1] refl p(1) p(2) vps sub p(5) p(6) p(7) rs']
  obtain x where r2: "rs' = Inr x" by blast
  from p(8) r r1 rs' r2 show ?case by (cases x) (auto simp: bindR_def)
qed

lemma plain_json:
  assumes "plainHeap h" and "validValue h v" and "length h \<le> stack_limit ops"
  shows "\<exists>res. JSON_stringify ops h (seenReplacer ops h) {} gap v = Some (Inr res)"
proof -
  let ?c = "\<lparr>ser_ops = ops, ser_heap = h, ser_replacer = seenReplacer ops h, ser_gap = gap\<rparr>"
  have "serializeProperty (Suc (length h)) ?c [] [] {} [] (Data v) \<noteq> None"
    by (rule fuel_enough(1)) simp_all
  then obtain r where r: "serializeProperty (Suc (length h)) ?c [] [] {} [] (Data v) = Some r" by blast
  have "\<exists>x. r = Inr x"
    by (rule plain_run(1)[OF _ _ _ _ _ _ _ r, of ops]) (use assms in \<open>simp_all add: plainSlot_def\<close>)
  then obtain x where "r = Inr x" by blast
  with r show ?thesis by (cases x) (auto simp: JSON_stringify_def bindR_def)
qed


lemma replaceAllChar_append:
  "replaceAllChar c r (a @ b) = replaceAllChar c r a @ replaceAllChar c r b"
  by (simp add: replaceAllChar_def)

lemma replaceAllChar_absent: "c \<notin> set m \<Longrightarrow> replaceAllChar c r m = m"
  by (induction m) (auto simp: replaceAllChar_def)

lemma replaceAllChar_includes:
  assumes "c \<notin> set m" and "includesStr s m"
  shows "includesStr (replaceAllChar c r s) m"
proof -
  from assms(2) obtain pre post where "s = pre @ m @ post" by (auto simp: includesStr_iff)
  then have "replaceAllChar c r s = replaceAllChar c r pre @ m @ replaceAllChar c r post"
    by (simp add: replaceAllChar_append replaceAllChar_absent[OF assms(1)])
  then show ?thesis unfolding includesStr_iff by blast
qed

text \<open>
  The marker holds none of the three characters, so it goes through the replacements of
  \<open>escAndTrunc\<close> whatever they put in place of \<open>&\<close>, \<open><\<close> and \<open>>\<close>.
\<close>

lemma escapeHtml_marker:
  assumes "includesStr s circularMarker"
  shows "includesStr (escapeHtml s) circularMarker"
proof -
  have n: "0x26 \<notin> set circularMarker" "0x3C \<notin> set circularMarker" "0x3E \<notin> set circularMarker"
    by (simp_all add: circularMarker_def ustr_def)
  show ?thesis unfolding escapeHtml_def
    by (intro replaceAllChar_includes n assms)
qed

lemma escAndTrunc_marker:
  "includesStr (escAndTrunc limit (Some s)) circularMarker
     \<longleftrightarrow> includesStr (take limit (escapeHtml s)) circularMarker"
proof -
  have m: "circularMarker \<noteq> []" "ellipsis \<notin> set circularMarker"
    by (simp_all add: circularMarker_def ustr_def ellipsis_def)
  show ?thesis
    by (simp add: escAndTrunc_def Let_def includesStr_snoc[OF m])
qed

lemma sanitizeObservation_json:
  "JSON_stringify ops h (seenReplacer ops h) {} (ustr ''  '') (VRef r) = Some (Inr res)
     \<Longrightarrow> sanitizeObservation ops limit h (VRef r) = Some (escAndTrunc limit res)"
  by (simp add: sanitizeObservation_def)

lemmas stringify_eval =
  JSON_stringify_def lookupObj_def plainObject_def prepare_def readSlot_def callToJSON_def
  classify_def seenReplacer_def isFunction_def bindR_def entriesOf_def wrapObj_def wrapJSON_def
  memberJSON_def serializePrimitive_def quoteJSONString_def circularMarker_def
  ustr_def quoteOne_def isHighSurrogate_def isLowSurrogate_def intNumops_def

lemmas chain_eval =
  holds_def ordinary_def descends_def lookupObj_def plainObject_def entriesOf_def

text \<open>
  C5.  The three replacements of \<open>escAndTrunc\<close> put back the character they match, so
  a string with \<open>&\<close>, \<open><\<close> or \<open>>\<close> comes out of the sanitizer as it went in: nothing is
  HTML-escaped.
\<close>

theorem sanitizeObservation_does_not_escape:
  "sanitizeObservation ops 3000 h (VStr (ustr ''a<b>&c'')) = Some (ustr ''a<b>&c'')"
  by (simp add: sanitizeObservation_def escAndTrunc_eq ustr_def)

text \<open>
  Three results without the marker for an object that holds itself.  An object with a
  \<open>toJSON\<close> method is serialised as what the method returns; a property of an array
  that is not an element is not serialised; and when the stack overflows further down
  the whole serialisation is given up for \<open>String(value)\<close>.
\<close>

lemma sanitizeObservation_toJSON_example:
  \<open>holds toJSONHeap 0 0 \<and>
   sanitizeObservation intNumops 3000 toJSONHeap (VRef 0) = Some (ustr ''"x"'')\<close>
  by (simp add: sanitizeObservation_def toJSONHeap_def stringify_eval escAndTrunc_eq holds_def)

lemma sanitizeObservation_array_property_example:
  "VRef 0 \<in> set (obj_others (arrayPropHeap ! 0)) \<and>
   sanitizeObservation intNumops 3000 arrayPropHeap (VRef 0) = Some (ustr ''[]'')"
  by (simp add: sanitizeObservation_def arrayPropHeap_def stringify_eval escAndTrunc_eq)

lemma sanitizeObservation_stack_example:
  "chain deepHeap 0 [0] \<and>
   sanitizeObservation shallowNumops 3000 deepHeap (VRef 0) = Some (ustr ''[object Object]'')"
  by (simp add: sanitizeObservation_def deepHeap_def shallowNumops_def stringify_eval
      escAndTrunc_eq holds_def ordinary_def descends_def toStringValue_def)

text \<open>
  C6 (as stated).  With the default limit of 3000 characters, the object
  \<open>{a: "xxx...", self: <itself>}\<close> is cut before its marker: the result does not contain
  \<open>[Circular]\<close>.
\<close>

theorem sanitizeObservation_circular_counterexample:
  \<open>chain longSelfHeap 0 [0] \<and>
   sanitizeObservation intNumops 3000 longSelfHeap (VRef 0)
     = Some (ustr ''{'' @ [0x0A] @ ustr ''  "a": "'' @ replicate 2990 0x78 @ [ellipsis]) \<and>
   \<not> includesStr (ustr ''{'' @ [0x0A] @ ustr ''  "a": "'' @ replicate 2990 0x78 @ [ellipsis])
         circularMarker\<close>
proof -
  let ?out = \<open>ustr ''{'' @ [0x0A] @ ustr ''  "a": "'' @ replicate 2990 0x78 @ [ellipsis]\<close>
  have q: "quoteChars (replicate 3000 (0x78 :: jschar)) = replicate 3000 0x78"
    by (rule quoteChars_plain) (simp add: quoteOne_def isHighSurrogate_def isLowSurrogate_def)
  have s: "sanitizeObservation intNumops 3000 longSelfHeap (VRef 0) = Some ?out"
    by (simp add: sanitizeObservation_def longSelfHeap_def stringify_eval q escAndTrunc_eq)
  have "hd circularMarker \<notin> set ?out"
    by (simp add: circularMarker_def ustr_def ellipsis_def)
  then have n: "\<not> includesStr ?out circularMarker"
    using includesStr_hd[of ?out circularMarker] by (auto simp: circularMarker_def ustr_def)
  have "chain longSelfHeap 0 [0]" by (simp add: longSelfHeap_def chain_eval)
  with s n show ?thesis by simp
qed

text \<open>
  C6 (amended).  The sanitizer returns a string for every value and every heap, whatever
  the serialiser raises.  For an object on a cycle of references through enumerable data
  properties or array elements of ordinary objects and arrays without \<open>toJSON\<close>: if the
  serialisation does not raise, its text contains \<open>[Circular]\<close>, and so does the text
  after the replacements of \<open>escAndTrunc\<close>; the returned string contains the marker
  exactly when the first \<open>limit\<close> characters of the text after the replacements do.
  The serialisation does not raise on plain data that has no more objects than the stack
  has room for.
\<close>

theorem sanitizeObservation_total_and_circular:
  "(\<exists>out. sanitizeObservation ops limit h v = Some out) \<and>
   (chain h r ys \<and> ys \<noteq> [] \<and> last ys = r
      \<and> JSON_stringify ops h (seenReplacer ops h) {} (ustr ''  '') (VRef r) = Some (Inr res) \<longrightarrow>
      (\<exists>json. res = Some json
        \<and> includesStr json circularMarker
        \<and> includesStr (escapeHtml json) circularMarker
        \<and> sanitizeObservation ops limit h (VRef r) = Some (escAndTrunc limit (Some json))
        \<and> (includesStr (escAndTrunc limit (Some json)) circularMarker
             \<longleftrightarrow> includesStr (take limit (escapeHtml json)) circularMarker))) \<and>
   (plainHeap h \<and> validValue h v \<and> length h \<le> stack_limit ops \<longrightarrow>
      (\<exists>res'. JSON_stringify ops h (seenReplacer ops h) {} (ustr ''  '') v = Some (Inr res')))"
proof (intro conjI impI)
  show "\<exists>out. sanitizeObservation ops limit h v = Some out"
    by (rule sanitizeObservation_total)
next
  assume a: "chain h r ys \<and> ys \<noteq> [] \<and> last ys = r
      \<and> JSON_stringify ops h (seenReplacer ops h) {} (ustr ''  '') (VRef r) = Some (Inr res)"
  then obtain json where j: "res = Some json" and inc: "includesStr json circularMarker"
    using cycle_json[of h r ys ops "ustr ''  ''" res] by blast
  have s: "sanitizeObservation ops limit h (VRef r) = Some (escAndTrunc limit (Some json))"
    using sanitizeObservation_json a j by blast
  show "\<exists>json. res = Some json
        \<and> includesStr json circularMarker
        \<and> includesStr (escapeHtml json) circularMarker
        \<and> sanitizeObservation ops limit h (VRef r) = Some (escAndTrunc limit (Some json))
        \<and> (includesStr (escAndTrunc limit (Some json)) circularMarker
             \<longleftrightarrow> includesStr (take limit (escapeHtml json)) circularMarker)"
    using j inc escapeHtml_marker[OF inc] s escAndTrunc_marker by blast
next
  assume "plainHeap h \<and> validValue h v \<and> length h \<le> stack_limit ops"
  then show "\<exists>res'. JSON_stringify ops h (seenReplacer ops h) {} (ustr ''  '') v = Some (Inr res')"
    using plain_json by blast
qed

theorem sanitizeObservation_total_and_circular_witness:
  \<open>chain pairHeap 0 [1, 0] \<and> last [1, 0 :: nat] = 0 \<and>
   plainHeap pairHeap \<and> length pairHeap \<le> stack_limit intNumops \<and>
   sanitizeObservation intNumops 3000 pairHeap (VRef 0)
     = Some (ustr ''{'' @ [0x0A] @ ustr ''  "b": {'' @ [0x0A] @ ustr ''    "a": "[Circular]"''
             @ [0x0A] @ ustr ''  }'' @ [0x0A] @ ustr ''}'') \<and>
   includesStr (ustr ''{'' @ [0x0A] @ ustr ''  "b": {'' @ [0x0A] @ ustr ''    "a": "[Circular]"''
             @ [0x0A] @ ustr ''  }'' @ [0x0A] @ ustr ''}'') circularMarker\<close>
proof -
  let ?text = \<open>ustr ''{'' @ [0x0A] @ ustr ''  "b": {'' @ [0x0A] @ ustr ''    "a": "[Circular]"''
             @ [0x0A] @ ustr ''  }'' @ [0x0A] @ ustr ''}''\<close>
  have c: "chain pairHeap 0 [1, 0] \<and> [1, 0 :: nat] \<noteq> [] \<and> last [1, 0 :: nat] = 0"
    by (simp add: pairHeap_def chain_eval)
  have p: "plainHeap pairHeap \<and> validValue pairHeap (VRef 0 :: int jsvalue)
           \<and> length pairHeap \<le> stack_limit intNumops"
    by (simp add: pairHeap_def plainHeap_def plainObj_def plainSlot_def validValue_def
        plainObject_def entriesOf_def intNumops_def)
  have j: "JSON_stringify intNumops pairHeap (seenReplacer intNumops pairHeap) {} (ustr ''  '') (VRef 0)
             = Some (Inr (Some ?text))"
    by (simp add: pairHeap_def stringify_eval)
  have e: "escAndTrunc 3000 (Some ?text) = ?text"
    by (simp add: escAndTrunc_eq ustr_def)
  have t: "take 3000 (escapeHtml ?text) = escapeHtml ?text"
    by (simp add: escapeHtml_id ustr_def)
  from sanitizeObservation_total_and_circular[of intNumops 3000 pairHeap "VRef 0" 0 "[1, 0]" "Some ?text"]
    c p j
  have "includesStr (escapeHtml ?text) circularMarker
        \<and> sanitizeObservation intNumops 3000 pairHeap (VRef 0) = Some (escAndTrunc 3000 (Some ?text))
        \<and> (includesStr (escAndTrunc 3000 (Some ?text)) circularMarker
             \<longleftrightarrow> includesStr (take 3000 (escapeHtml ?text)) circularMarker)"
    by blast
  then have "sanitizeObservation intNumops 3000 pairHeap (VRef 0) = Some ?text
        \<and> includesStr ?text circularMarker"
    unfolding t e by blast
  with c p show ?thesis by blast
qed


section \<open>Properties of the decision parser\<close>

subsection \<open>The fence pattern\<close>

lemma startsWith_Cons_fence: "c \<noteq> 0x60 \<Longrightarrow> \<not> startsWith (c # cs) fence"
  by (auto simp: startsWith_def fence_def)

lemma fenceAt_not_backtick: "c \<noteq> 0x60 \<Longrightarrow> fenceAt (c # cs) = None"
  by (simp add: fenceAt_def startsWith_Cons_fence)

lemma startsWith_includes: "startsWith s p \<Longrightarrow> includesStr s p"
proof -
  assume "startsWith s p"
  then have "s = [] @ p @ drop (length p) s"
    by (metis append_Nil append_take_drop_id startsWith_def)
  then show ?thesis unfolding includesStr_iff by blast
qed

lemma includesStr_Cons: "includesStr cs m \<Longrightarrow> includesStr (c # cs) m"
  by simp

lemma fenceMatches_includes: "fenceMatches s \<Longrightarrow> includesStr s fence"
proof (induction s)
  case Nil
  then show ?case by simp
next
  case (Cons c cs)
  show ?case
  proof (cases "fenceAt (c # cs) = None")
    case True
    with Cons show ?thesis by simp
  next
    case False
    then have "startsWith (c # cs) fence" by (auto simp: fenceAt_def split: if_splits)
    then show ?thesis by (rule startsWith_includes)
  qed
qed

lemma stripFence_no_match: "\<not> fenceMatches s \<Longrightarrow> stripFence s = s"
proof (induction s)
  case Nil
  then show ?case by simp
next
  case (Cons c cs)
  from Cons.prems have n: "fenceAt (c # cs) = None" by (cases "fenceAt (c # cs)") auto
  from Cons have "stripFence cs = cs" by simp
  with n show ?case by simp
qed

lemma stripFence_skip: "\<forall>c \<in> set pre. c \<noteq> 0x60 \<Longrightarrow> stripFence (pre @ s) = pre @ stripFence s"
  by (induction pre) (auto simp: fenceAt_not_backtick)

lemma splitAtFence_plain:
  "\<forall>c \<in> set b. c \<noteq> 0x60 \<Longrightarrow> splitAtFence (b @ fence @ post) = Some (b, post)"
proof (induction b)
  case Nil
  then show ?case by (simp add: fence_def startsWith_def)
next
  case (Cons c b)
  then show ?case by (simp add: startsWith_Cons_fence)
qed

lemma skipJsonTag_append:
  assumes "\<forall>c \<in> set b. c \<noteq> 0x60"
  shows "skipJsonTag (b @ fence @ post) = skipJsonTag b @ fence @ post"
proof (cases "4 \<le> length b")
  case True
  then show ?thesis by (simp add: skipJsonTag_def)
next
  case False
  then have short: "length b < 4" by simp
  then have "length (take 4 b) < 4" by simp
  then have nb: "map toLowerASCII (take 4 b) \<noteq> ustr ''json''"
    by (auto simp: ustr_def dest!: arg_cong[where f = length])
  have "(take 4 (b @ fence @ post)) ! length b = 0x60"
    using short by (simp add: nth_append fence_def)
  moreover have "length b < length (take 4 (b @ fence @ post))"
    using short by (simp add: fence_def)
  ultimately have "0x60 \<in> set (take 4 (b @ fence @ post))"
    by (metis nth_mem)
  then have "toLowerASCII 0x60 \<in> set (map toLowerASCII (take 4 (b @ fence @ post)))"
    by (simp only: set_map) blast
  moreover have "toLowerASCII 0x60 = 0x60" by (simp add: toLowerASCII_def)
  moreover have "0x60 \<notin> set (ustr ''json'')" by (simp add: ustr_def)
  ultimately have "map toLowerASCII (take 4 (b @ fence @ post)) \<noteq> ustr ''json''"
    by metis
  with nb show ?thesis by (simp add: skipJsonTag_def)
qed

lemma set_skipJsonTag: "set (skipJsonTag b) \<subseteq> set b"
  by (auto simp: skipJsonTag_def dest: in_set_dropD)

lemma dropWhile_isWS_fence:
  "dropWhile isWS (b @ fence @ post) = dropWhile isWS b @ fence @ post"
proof -
  have "\<not> isWS 0x60" by (simp add: isWS_def)
  then show ?thesis by (induction b) (auto simp: fence_def)
qed

lemma fenceAt_block:
  assumes "\<forall>c \<in> set body. c \<noteq> 0x60"
  shows "fenceAt (fence @ body @ fence @ post)
           = Some (trimEnd (dropWhile isWS (skipJsonTag body)), post)"
proof -
  have sw: "startsWith (fence @ body @ fence @ post) fence"
    by (simp add: startsWith_def fence_def)
  have d3: "drop 3 (fence @ body @ fence @ post) = body @ fence @ post"
    by (simp add: fence_def)
  let ?b = "dropWhile isWS (skipJsonTag body)"
  have plain: "\<forall>c \<in> set ?b. c \<noteq> 0x60"
    using assms set_skipJsonTag[of body] set_dropWhileD[of _ isWS "skipJsonTag body"] by blast
  have "dropWhile isWS (skipJsonTag (body @ fence @ post)) = ?b @ fence @ post"
    by (simp add: skipJsonTag_append[OF assms] dropWhile_isWS_fence)
  then show ?thesis
    using sw d3 splitAtFence_plain[OF plain] by (simp add: fenceAt_def)
qed

lemma stripFence_block:
  assumes "\<forall>c \<in> set pre. c \<noteq> 0x60" and "\<forall>c \<in> set body. c \<noteq> 0x60"
  shows "stripFence (pre @ fence @ body @ fence @ post)
           = pre @ trimEnd (dropWhile isWS (skipJsonTag body)) @ post"
proof -
  have "stripFence (fence @ body @ fence @ post)
          = trimEnd (dropWhile isWS (skipJsonTag body)) @ post"
  proof -
    obtain c cs where e: "fence @ body @ fence @ post = c # cs" by (simp add: fence_def)
    show ?thesis using fenceAt_block[OF assms(2), of post] unfolding e by simp
  qed
  then show ?thesis using stripFence_skip[OF assms(1)] by simp
qed

text \<open>The general case: the text before the block and its content may hold backticks.\<close>

lemma take2_fence: "take 2 (p @ fence @ r) = take 2 (p @ [0x60, 0x60])"
proof (cases p)
  case Nil
  then show ?thesis by (simp add: fence_def)
next
  case (Cons a p')
  then show ?thesis by (cases p') (simp_all add: fence_def)
qed

lemma starts_fence_iff:
  "startsWith (c # p @ fence @ r) fence \<longleftrightarrow> take 3 (c # p @ [0x60, 0x60]) = fence"
proof -
  have s3: "(3::nat) = Suc 2" by simp
  have "take 3 (c # p @ fence @ r) = take 3 (c # p @ [0x60, 0x60])"
    unfolding s3 take_Suc_Cons take2_fence ..
  moreover have "length fence = 3" by (simp add: fence_def)
  ultimately show ?thesis unfolding startsWith_def by (simp only:)
qed

lemma includes_Cons_fence:
  "includesStr (c # xs) fence \<longleftrightarrow> take 3 (c # xs) = fence \<or> includesStr xs fence"
proof -
  have "length fence = 3" by (simp add: fence_def)
  then show ?thesis by (simp only: includesStr.simps)
qed

lemma no_fence_Cons:
  assumes "\<not> includesStr ((c # p) @ [0x60, 0x60]) fence"
  shows "\<not> startsWith (c # p @ fence @ r) fence" and "\<not> includesStr (p @ [0x60, 0x60]) fence"
proof -
  from assms[unfolded append_Cons]
  have a: "take 3 (c # p @ [0x60, 0x60]) \<noteq> fence"
    and b: "\<not> includesStr (p @ [0x60, 0x60]) fence"
    using includes_Cons_fence by blast+
  from a show "\<not> startsWith (c # p @ fence @ r) fence" using starts_fence_iff by blast
  from b show "\<not> includesStr (p @ [0x60, 0x60]) fence" .
qed

lemma stripFence_before:
  "\<not> includesStr (pre @ [0x60, 0x60]) fence \<Longrightarrow>
     stripFence (pre @ fence @ r) = pre @ stripFence (fence @ r)"
proof (induction pre)
  case Nil
  then show ?case by simp
next
  case (Cons c pre)
  from no_fence_Cons(1)[OF Cons.prems, of r] no_fence_Cons(2)[OF Cons.prems]
  have n: "\<not> startsWith (c # pre @ fence @ r) fence"
    and m: "\<not> includesStr (pre @ [0x60, 0x60]) fence" by auto
  from n have "fenceAt (c # pre @ fence @ r) = None" by (simp add: fenceAt_def)
  with Cons.IH[OF m] show ?case by simp
qed

lemma splitAtFence_first:
  "\<not> includesStr (b @ [0x60, 0x60]) fence \<Longrightarrow> splitAtFence (b @ fence @ post) = Some (b, post)"
proof (induction b)
  case Nil
  then show ?case by (simp add: fence_def startsWith_def)
next
  case (Cons c b)
  from no_fence_Cons(1)[OF Cons.prems, of post] no_fence_Cons(2)[OF Cons.prems]
  have n: "\<not> startsWith (c # b @ fence @ post) fence"
    and m: "\<not> includesStr (b @ [0x60, 0x60]) fence" by auto
  with Cons.IH show ?case by simp
qed

lemma skipJsonTag_fence: "skipJsonTag (b @ fence @ post) = skipJsonTag b @ fence @ post"
proof (cases "4 \<le> length b")
  case True
  then show ?thesis by (simp add: skipJsonTag_def)
next
  case False
  then have short: "length b < 4" by simp
  then have "length (take 4 b) < 4" by simp
  then have nb: "map toLowerASCII (take 4 b) \<noteq> ustr ''json''"
    by (auto simp: ustr_def dest!: arg_cong[where f = length])
  have "(take 4 (b @ fence @ post)) ! length b = 0x60"
    using short by (simp add: nth_append fence_def)
  moreover have "length b < length (take 4 (b @ fence @ post))"
    using short by (simp add: fence_def)
  ultimately have "0x60 \<in> set (take 4 (b @ fence @ post))"
    by (metis nth_mem)
  then have "toLowerASCII 0x60 \<in> set (map toLowerASCII (take 4 (b @ fence @ post)))"
    by (simp only: set_map) blast
  moreover have "toLowerASCII 0x60 = 0x60" by (simp add: toLowerASCII_def)
  moreover have "0x60 \<notin> set (ustr ''json'')" by (simp add: ustr_def)
  ultimately have "map toLowerASCII (take 4 (b @ fence @ post)) \<noteq> ustr ''json''"
    by metis
  with nb show ?thesis by (simp add: skipJsonTag_def)
qed

text \<open>The content of a block is what is left of the body after the tag and the whitespace.\<close>

lemma content_suffix: "\<exists>p. body = p @ dropWhile isWS (skipJsonTag body)"
proof -
  have "\<exists>q. body = q @ skipJsonTag body"
    by (metis append_Nil append_take_drop_id skipJsonTag_def)
  then obtain q where q: "body = q @ skipJsonTag body" by blast
  have "skipJsonTag body = takeWhile isWS (skipJsonTag body) @ dropWhile isWS (skipJsonTag body)"
    by simp
  with q have "body = (q @ takeWhile isWS (skipJsonTag body)) @ dropWhile isWS (skipJsonTag body)"
    by (metis append_assoc)
  then show ?thesis by blast
qed

lemma content_no_fence:
  assumes "\<not> includesStr (body @ [0x60, 0x60]) fence"
  shows "\<not> includesStr (dropWhile isWS (skipJsonTag body) @ [0x60, 0x60]) fence"
proof
  assume a: "includesStr (dropWhile isWS (skipJsonTag body) @ [0x60, 0x60]) fence"
  from content_suffix obtain p where p: "body = p @ dropWhile isWS (skipJsonTag body)" by blast
  then have "body @ [0x60, 0x60] = p @ (dropWhile isWS (skipJsonTag body) @ [0x60, 0x60]) @ []"
    by (metis append_Nil2 append_assoc)
  with a have "includesStr (body @ [0x60, 0x60]) fence" by (rule includes_trans)
  with assms show False by simp
qed

lemma fenceAt_first:
  assumes "\<not> includesStr (body @ [0x60, 0x60]) fence"
  shows "fenceAt (fence @ body @ fence @ post)
           = Some (trimEnd (dropWhile isWS (skipJsonTag body)), post)"
proof -
  have sw: "startsWith (fence @ body @ fence @ post) fence"
    by (simp add: startsWith_def fence_def)
  have d3: "drop 3 (fence @ body @ fence @ post) = body @ fence @ post"
    by (simp add: fence_def)
  let ?b = "dropWhile isWS (skipJsonTag body)"
  have "dropWhile isWS (skipJsonTag (body @ fence @ post)) = ?b @ fence @ post"
    by (simp add: skipJsonTag_fence dropWhile_isWS_fence)
  then show ?thesis
    using sw d3 splitAtFence_first[OF content_no_fence[OF assms]] by (simp add: fenceAt_def)
qed

lemma stripFence_first:
  assumes "\<not> includesStr (pre @ [0x60, 0x60]) fence" and "\<not> includesStr (body @ [0x60, 0x60]) fence"
  shows "stripFence (pre @ fence @ body @ fence @ post)
           = pre @ trimEnd (dropWhile isWS (skipJsonTag body)) @ post"
proof -
  have "stripFence (fence @ body @ fence @ post)
          = trimEnd (dropWhile isWS (skipJsonTag body)) @ post"
  proof -
    obtain c cs where e: "fence @ body @ fence @ post = c # cs" by (simp add: fence_def)
    show ?thesis using fenceAt_first[OF assms(2), of post] unfolding e by simp
  qed
  then show ?thesis using stripFence_before[OF assms(1), of "body @ fence @ post"] by simp
qed

lemma content_length: "length (trimEnd (dropWhile isWS (skipJsonTag body))) \<le> length body"
proof -
  have "length (trimEnd s) \<le> length s" for s :: jsstring
    unfolding trimEnd_def using length_dropWhile_le[of isWS "rev s"] by simp
  moreover have "length (dropWhile isWS s) \<le> length s" for s :: jsstring
    by (rule length_dropWhile_le)
  moreover have "length (skipJsonTag body) \<le> length body" by (simp add: skipJsonTag_def)
  ultimately show ?thesis by (meson le_trans)
qed

text \<open>The first occurrence of the fence in a text that holds one.\<close>

lemma first_fence:
  "includesStr s fence \<Longrightarrow>
     \<exists>pre rest. s = pre @ fence @ rest \<and> \<not> includesStr (pre @ [0x60, 0x60]) fence"
proof (induction s)
  case Nil
  then show ?case by (simp add: fence_def)
next
  case (Cons c cs)
  show ?case
  proof (cases "startsWith (c # cs) fence")
    case True
    then have "c # cs = [] @ fence @ drop 3 (c # cs)"
      by (metis append_Nil append_take_drop_id startsWith_def fence_def length_Cons list.size(3)
          numeral_3_eq_3)
    moreover have "\<not> includesStr ([] @ [0x60, 0x60]) fence" by (simp add: fence_def)
    ultimately show ?thesis by blast
  next
    case False
    moreover have "length fence = 3" by (simp add: fence_def)
    ultimately have "take 3 (c # cs) \<noteq> fence" by (metis startsWith_def)
    with Cons.prems have "includesStr cs fence" using includes_Cons_fence by blast
    from Cons.IH[OF this] obtain pre rest where e: "cs = pre @ fence @ rest"
      and n: "\<not> includesStr (pre @ [0x60, 0x60]) fence" by blast
    from False have "\<not> startsWith (c # pre @ fence @ rest) fence" unfolding e .
    then have "take 3 (c # pre @ [0x60, 0x60]) \<noteq> fence" using starts_fence_iff by blast
    with n have "\<not> includesStr (c # pre @ [0x60, 0x60]) fence" using includes_Cons_fence by blast
    then have "\<not> includesStr ((c # pre) @ [0x60, 0x60]) fence" unfolding append_Cons .
    moreover have "c # cs = (c # pre) @ fence @ rest" using e by simp
    ultimately show ?thesis by blast
  qed
qed

lemma drop_within: "n \<le> length a \<Longrightarrow> drop n (a @ b) = drop n a @ b"
  by simp

text \<open>
  A text with two fences that do not overlap has a first block: its opening fence is the
  first fence of the text, and its closing fence the first one after the opening.
\<close>

lemma first_block:
  assumes "t = p0 @ fence @ m0 @ fence @ q0"
  shows "\<exists>pre body post. t = pre @ fence @ body @ fence @ post
           \<and> \<not> includesStr (pre @ [0x60, 0x60]) fence \<and> \<not> includesStr (body @ [0x60, 0x60]) fence"
proof -
  have "includesStr t fence" unfolding includesStr_iff using assms by blast
  from first_fence[OF this] obtain pre rest where t: "t = pre @ fence @ rest"
    and h1: "\<not> includesStr (pre @ [0x60, 0x60]) fence" by blast
  have le: "length pre \<le> length p0"
  proof (rule ccontr)
    assume "\<not> length pre \<le> length p0"
    then have lt: "length p0 < length pre" by simp
    have "pre @ [0x60, 0x60] = take (length pre + 2) t"
      using t by (simp add: fence_def)
    also have "\<dots> = take (length pre + 2) ((p0 @ fence) @ (m0 @ fence @ q0))" using assms by simp
    also have "\<dots> = (p0 @ fence) @ take (length pre + 2 - length (p0 @ fence)) (m0 @ fence @ q0)"
    proof -
      have "length (p0 @ fence) \<le> length pre + 2" using lt by (simp add: fence_def)
      then show ?thesis by (simp only: take_append take_all_iff) simp
    qed
    finally have "pre @ [0x60, 0x60]
        = p0 @ fence @ take (length pre + 2 - length (p0 @ fence)) (m0 @ fence @ q0)"
      by simp
    then have "includesStr (pre @ [0x60, 0x60]) fence"
      unfolding includesStr_iff by blast
    with h1 show False by simp
  qed
  have "rest = drop (length pre + 3) t" using t by (simp add: fence_def)
  also have "\<dots> = drop (length pre + 3) ((p0 @ fence @ m0) @ fence @ q0)" using assms by simp
  also have "\<dots> = drop (length pre + 3) (p0 @ fence @ m0) @ fence @ q0"
  proof -
    have "length pre + 3 \<le> length (p0 @ fence @ m0)" using le by (simp add: fence_def)
    then show ?thesis by (rule drop_within)
  qed
  finally have "includesStr rest fence" unfolding includesStr_iff by blast
  from first_fence[OF this] obtain body post where r: "rest = body @ fence @ post"
    and h2: "\<not> includesStr (body @ [0x60, 0x60]) fence" by blast
  from t r h1 h2 show ?thesis by blast
qed

lemma splitAtFence_eq: "splitAtFence x = Some (b, a) \<Longrightarrow> x = b @ fence @ a"
proof (induction x arbitrary: b)
  case Nil
  then show ?case by simp
next
  case (Cons c cs)
  show ?case
  proof (cases "startsWith (c # cs) fence")
    case True
    with Cons.prems have b: "b = []" and a: "a = drop 2 cs" by auto
    from True have "c # cs = fence @ drop 3 (c # cs)"
      by (metis append_take_drop_id startsWith_def fence_def length_Cons list.size(3)
          numeral_3_eq_3)
    with a b show ?thesis by (simp add: fence_def)
  next
    case False
    with Cons.prems obtain b' where s: "splitAtFence cs = Some (b', a)" and b: "b = c # b'"
      by (auto split: option.splits)
    from Cons.IH[OF s] b show ?thesis by simp
  qed
qed

lemma fenceAt_block_eq:
  assumes "fenceAt s = Some (inner, after)"
  shows "\<exists>mid. s = fence @ mid @ fence @ after"
proof -
  from assms have sw: "startsWith s fence" by (auto simp: fenceAt_def split: if_splits)
  then have s: "s = fence @ drop 3 s"
    by (metis append_take_drop_id startsWith_def fence_def length_Cons list.size(3) numeral_3_eq_3)
  from assms sw obtain b where
    sp: "splitAtFence (dropWhile isWS (skipJsonTag (drop 3 s))) = Some (b, after)"
    by (auto simp: fenceAt_def split: option.splits)
  from content_suffix[of "drop 3 s"] obtain p where
    p: "drop 3 s = p @ dropWhile isWS (skipJsonTag (drop 3 s))" by blast
  from splitAtFence_eq[OF sp] p have "drop 3 s = p @ b @ fence @ after" by simp
  with s have "s = fence @ (p @ b) @ fence @ after" by (metis append_assoc)
  then show ?thesis by blast
qed

lemma fenceMatches_block:
  "fenceMatches s \<Longrightarrow> \<exists>pre mid post. s = pre @ fence @ mid @ fence @ post"
proof (induction s)
  case Nil
  then show ?case by simp
next
  case (Cons c cs)
  show ?case
  proof (cases "fenceAt (c # cs)")
    case None
    with Cons obtain pre mid post where "cs = pre @ fence @ mid @ fence @ post" by auto
    then have "c # cs = (c # pre) @ fence @ mid @ fence @ post" by simp
    then show ?thesis by blast
  next
    case (Some r)
    obtain inner after where "r = (inner, after)" by (cases r)
    with Some fenceAt_block_eq obtain mid where "c # cs = [] @ fence @ mid @ fence @ after"
      by fastforce
    then show ?thesis by blast
  qed
qed

lemma stripFence_unaltered_iff:
  "stripFence t = t \<longleftrightarrow> \<not> (\<exists>pre mid post. t = pre @ fence @ mid @ fence @ post)"
proof
  assume eq: "stripFence t = t"
  show "\<not> (\<exists>pre mid post. t = pre @ fence @ mid @ fence @ post)"
  proof
    assume "\<exists>pre mid post. t = pre @ fence @ mid @ fence @ post"
    then obtain p0 m0 q0 where "t = p0 @ fence @ m0 @ fence @ q0" by blast
    from first_block[OF this] obtain pre body post where
      t: "t = pre @ fence @ body @ fence @ post"
      and h: "\<not> includesStr (pre @ [0x60, 0x60]) fence" "\<not> includesStr (body @ [0x60, 0x60]) fence"
      by blast
    have "length (stripFence t) < length t"
      unfolding t stripFence_first[OF h] using content_length[of body] by (simp add: fence_def)
    with eq show False by simp
  qed
next
  assume "\<not> (\<exists>pre mid post. t = pre @ fence @ mid @ fence @ post)"
  then have "\<not> fenceMatches t" using fenceMatches_block by blast
  then show "stripFence t = t" by (rule stripFence_no_match)
qed

text \<open>A text with an opening fence that is never closed is not altered.\<close>

lemma stripFence_unclosed_example: "stripFence (ustr ''```abc'') = ustr ''```abc''"
  by (simp add: fenceAt_def startsWith_def fence_def ustr_def skipJsonTag_def toLowerASCII_def
      isWS_def)

text \<open>
  C7 (as stated).  In \<open>a ```b``` c\<close> the fenced block does not enclose the whole text (the
  anchored pattern of \<open>robustParseArgs\<close> leaves the text as it is), and yet the first
  step of \<open>tryParseToolCall\<close> alters it.
\<close>

theorem stripFence_counterexample:
  "stripWholeFence (ustr ''a ```b``` c'') = ustr ''a ```b``` c'' \<and>
   stripFence (ustr ''a ```b``` c'') = ustr ''a b c'' \<and>
   stripFence (ustr ''a ```b``` c'') \<noteq> ustr ''a ```b``` c''"
  by (simp add: stripWholeFence_def fenceAt_def startsWith_def fence_def ustr_def
      skipJsonTag_def toLowerASCII_def isWS_def trimEnd_def)

text \<open>
  C7 (amended).  The first step replaces the first fenced block of the text by its
  content, wherever the block stands.  The block runs from the first fence of the text
  (no fence begins in \<open>pre\<close>) to the first fence after it (no fence begins in \<open>body\<close>);
  the text before and after the block is kept, and the \<open>json\<close> tag and the whitespace
  around the content are dropped.  Single and double backticks may stand before the block
  and in its content.  Every text with two fences that do not overlap has such a first
  block, and the step leaves a text unaltered exactly when it has no two such fences.
\<close>

theorem stripFence_first_block:
  "(stripFence t = t \<longleftrightarrow> \<not> (\<exists>p m q. t = p @ fence @ m @ fence @ q)) \<and>
   (\<not> includesStr (pre @ [0x60, 0x60]) fence \<and> \<not> includesStr (body @ [0x60, 0x60]) fence \<longrightarrow>
      stripFence (pre @ fence @ body @ fence @ post)
        = pre @ trimEnd (dropWhile isWS (skipJsonTag body)) @ post) \<and>
   ((\<exists>p m q. t = p @ fence @ m @ fence @ q) \<longrightarrow>
      (\<exists>pre' body' post'. t = pre' @ fence @ body' @ fence @ post'
          \<and> \<not> includesStr (pre' @ [0x60, 0x60]) fence
          \<and> \<not> includesStr (body' @ [0x60, 0x60]) fence))"
proof (intro conjI impI)
  show "stripFence t = t \<longleftrightarrow> \<not> (\<exists>p m q. t = p @ fence @ m @ fence @ q)"
    by (rule stripFence_unaltered_iff)
next
  assume "\<not> includesStr (pre @ [0x60, 0x60]) fence \<and> \<not> includesStr (body @ [0x60, 0x60]) fence"
  then show "stripFence (pre @ fence @ body @ fence @ post)
        = pre @ trimEnd (dropWhile isWS (skipJsonTag body)) @ post"
    using stripFence_first by blast
next
  assume "\<exists>p m q. t = p @ fence @ m @ fence @ q"
  then show "\<exists>pre' body' post'. t = pre' @ fence @ body' @ fence @ post'
          \<and> \<not> includesStr (pre' @ [0x60, 0x60]) fence
          \<and> \<not> includesStr (body' @ [0x60, 0x60]) fence"
    using first_block by blast
qed

theorem stripFence_first_block_witness:
  \<open>\<not> includesStr (ustr ''`x` '' @ [0x60, 0x60]) fence \<and>
   \<not> includesStr (ustr ''json a`b '' @ [0x60, 0x60]) fence \<and>
   (\<exists>p m q. ustr ''`x` ```json a`b ``` c'' = p @ fence @ m @ fence @ q) \<and>
   stripFence (ustr ''`x` ```json a`b ``` c'') = ustr ''`x` a`b c'' \<and>
   stripFence (ustr ''`x` ```json a`b ``` c'') \<noteq> ustr ''`x` ```json a`b ``` c''\<close>
proof -
  let ?t = \<open>ustr ''`x` ```json a`b ``` c''\<close>
  have h: \<open>\<not> includesStr (ustr ''`x` '' @ [0x60, 0x60]) fence \<and>
           \<not> includesStr (ustr ''json a`b '' @ [0x60, 0x60]) fence\<close>
    by (simp add: ustr_def fence_def)
  have e: \<open>?t = ustr ''`x` '' @ fence @ ustr ''json a`b '' @ fence @ ustr '' c''\<close>
    by (simp add: ustr_def fence_def)
  then have ex: "\<exists>p m q. ?t = p @ fence @ m @ fence @ q" by blast
  have c: \<open>ustr ''`x` '' @ trimEnd (dropWhile isWS (skipJsonTag (ustr ''json a`b ''))) @ ustr '' c''
             = ustr ''`x` a`b c''\<close>
    by (simp add: ustr_def skipJsonTag_def toLowerASCII_def isWS_def trimEnd_def)
  from stripFence_first_block[of ?t \<open>ustr ''`x` ''\<close> \<open>ustr ''json a`b ''\<close> \<open>ustr '' c''\<close>] h ex
  have "stripFence ?t \<noteq> ?t"
    and "stripFence (ustr ''`x` '' @ fence @ ustr ''json a`b '' @ fence @ ustr '' c'')
          = ustr ''`x` '' @ trimEnd (dropWhile isWS (skipJsonTag (ustr ''json a`b ''))) @ ustr '' c''"
    by blast+
  with h ex c e show ?thesis by simp
qed


subsection \<open>Every input yields a decision\<close>

lemma toolCallsCase_shape:
  "toolCallsCase ops clock obj = Some d \<Longrightarrow> \<exists>calls. calls \<noteq> [] \<and> d = callsStep calls"
  by (auto simp: toolCallsCase_def Let_def split: option.splits json.splits if_splits)

lemma singleCallCase_shape:
  "singleCallCase ops obj = Some d \<Longrightarrow> \<exists>calls. calls \<noteq> [] \<and> d = callsStep calls"
  by (auto simp: singleCallCase_def Let_def split: if_splits)

lemma stringCase_shape:
  "stringCase obj = Some d \<Longrightarrow> \<exists>c. c \<noteq> [] \<and> d = contentStep c (ustr ''continue'')"
  by (auto simp: stringCase_def split: json.splits if_splits)

lemma otherCases_shape:
  assumes "otherCases ops clock obj = Some d"
  shows "(\<exists>calls. calls \<noteq> [] \<and> d = callsStep calls)
       \<or> (\<exists>c. c \<noteq> [] \<and> d = contentStep c (ustr ''continue''))"
proof -
  from assms consider "toolCallsCase ops clock obj = Some d" | "singleCallCase ops obj = Some d"
    | "stringCase obj = Some d"
    by (auto simp: otherCases_def split: option.splits)
  then show ?thesis
  proof cases
    case 1
    from toolCallsCase_shape[OF this] show ?thesis by (rule disjI1)
  next
    case 2
    from singleCallCase_shape[OF this] show ?thesis by (rule disjI1)
  next
    case 3
    from stringCase_shape[OF this] show ?thesis by (rule disjI2)
  qed
qed

lemma strictParse_shape:
  assumes "strictParse ops clock cleaned = Inr (Some d)"
  shows "(\<exists>calls. calls \<noteq> [] \<and> d = callsStep calls)
       \<or> (\<exists>c. d = contentStep c (ustr ''final''))
       \<or> (\<exists>c. c \<noteq> [] \<and> d = contentStep c (ustr ''continue''))"
proof -
  from assms obtain obj fin where obj: "JSON_parse ops cleaned = Inr obj"
    and fin: "getProp (Some obj) (ustr ''final'') = Inr fin"
    by (auto simp: strictParse_def split: sum.splits)
  show ?thesis
  proof (cases "\<exists>s. fin = Some (JStr s)")
    case True
    then obtain s where "fin = Some (JStr s)" by blast
    with assms obj fin have "d = contentStep s (ustr ''final'')"
      by (simp add: strictParse_def)
    then show ?thesis by blast
  next
    case False
    with assms obj fin have "otherCases ops clock obj = Some d"
      by (cases fin) (auto simp: strictParse_def split: json.splits)
    then show ?thesis using otherCases_shape by blast
  qed
qed

lemma toolHeuristic_shape:
  "toolHeuristic ops cleaned = Inr (Some d) \<Longrightarrow> \<exists>calls. calls \<noteq> [] \<and> d = callsStep calls"
  by (auto simp: toolHeuristic_def Let_def split: option.splits sum.splits if_splits)

lemma tryBody_shape:
  assumes "tryBody ops clock text = Inr (Some d)"
  shows "(\<exists>calls. calls \<noteq> [] \<and> d = callsStep calls)
       \<or> (\<exists>c. d = contentStep c (ustr ''final''))
       \<or> (\<exists>c. c \<noteq> [] \<and> d = contentStep c (ustr ''continue''))"
proof -
  let ?cleaned = "trim (stripFence text)"
  show ?thesis
  proof (cases "strictParse ops clock ?cleaned = Inr (Some d)")
    case True
    then show ?thesis by (rule strictParse_shape)
  next
    case ns: False
    show ?thesis
    proof (cases "finalMatch ?cleaned")
      case (Some cap)
      with assms ns have "d = contentStep cap (ustr ''final'')"
        by (auto simp: tryBody_def Let_def split: sum.splits option.splits)
      then show ?thesis by blast
    next
      case None
      show ?thesis
      proof (cases "toolHeuristic ops ?cleaned = Inr (Some d)")
        case True
        then show ?thesis using toolHeuristic_shape by blast
      next
        case False
        with assms ns None have "?cleaned \<noteq> [] \<and> d = contentStep ?cleaned (ustr ''continue'')"
          by (auto simp: tryBody_def Let_def split: sum.splits option.splits if_splits)
        then show ?thesis by blast
      qed
    qed
  qed
qed

text \<open>
  C1.  \<open>tryParseToolCall\<close> returns a decision for every text: tool calls (at least one,
  with \<open>null\<close> content and \<open>continue\<close>), or content with \<open>final\<close>, or non-empty content
  with \<open>continue\<close>, or the raw text as content.  The last one is also what it returns when
  its body raises.
\<close>

theorem tryParseToolCall_total:
  "(\<exists>calls. calls \<noteq> [] \<and> tryParseToolCall ops clock text = callsStep calls)
   \<or> (\<exists>c. tryParseToolCall ops clock text = contentStep c (ustr ''final''))
   \<or> (\<exists>c. c \<noteq> [] \<and> tryParseToolCall ops clock text = contentStep c (ustr ''continue''))
   \<or> (tryParseToolCall ops clock text = contentStep text (ustr ''continue'')
        \<and> tryBody ops clock text \<noteq> Inr (Some (tryParseToolCall ops clock text)))"
proof (cases "\<exists>d. tryBody ops clock text = Inr (Some d)")
  case True
  then obtain d where d: "tryBody ops clock text = Inr (Some d)" by blast
  then have "tryParseToolCall ops clock text = d" by (simp add: tryParseToolCall_def)
  with tryBody_shape[OF d] show ?thesis by blast
next
  case False
  then have "tryParseToolCall ops clock text = contentStep text (ustr ''continue'')"
    by (auto simp: tryParseToolCall_def split: sum.splits option.splits)
  with False show ?thesis by auto
qed


subsection \<open>A final answer is read back as it was written\<close>

lemma hex_digits_sum:
  "4096 * (n div 4096) + 256 * (n div 256 mod 16) + 16 * (n div 16 mod 16) + n mod 16 = (n::nat)"
proof -
  have a: "n mod 4096 = 256 * (n div 256 mod 16) + n mod 256"
    using mod_mult2_eq[of n 256 16] by simp
  have b: "n mod 256 = 16 * (n div 16 mod 16) + n mod 16"
    using mod_mult2_eq[of n 16 16] by simp
  have c: "n = 4096 * (n div 4096) + n mod 4096" by simp
  from a b c show ?thesis by linarith
qed

lemma hexVal_hexDigit: "d < 16 \<Longrightarrow> hexVal (hexDigit d) = Some d"
proof -
  assume "d < 16"
  then have "d = 0 \<or> d = 1 \<or> d = 2 \<or> d = 3 \<or> d = 4 \<or> d = 5 \<or> d = 6 \<or> d = 7 \<or> d = 8
      \<or> d = 9 \<or> d = 10 \<or> d = 11 \<or> d = 12 \<or> d = 13 \<or> d = 14 \<or> d = 15"
    by arith
  then show ?thesis by (elim disjE) (simp_all add: hexVal_def hexDigit_def)
qed

lemma hex4_unicodeEscape:
  "lexEscape (tl (unicodeEscape c) @ rest) = Some (c, rest)"
proof -
  let ?n = "unat c"
  have "?n < 65536" using unsigned_less[of c] by simp
  then have b: "?n div 4096 < 16" "?n div 256 mod 16 < 16" "?n div 16 mod 16 < 16" "?n mod 16 < 16"
    by auto
  have "of_nat (4096 * (?n div 4096) + 256 * (?n div 256 mod 16) + 16 * (?n div 16 mod 16) + ?n mod 16) = c"
    by (simp only: hex_digits_sum) simp
  then show ?thesis
    using b by (simp add: unicodeEscape_def Let_def hexVal_hexDigit)
qed

lemma lexString_plain:
  "c \<noteq> 0x22 \<Longrightarrow> c \<noteq> 0x5C \<Longrightarrow> \<not> c < 0x20 \<Longrightarrow> lexString rest = Some (d, r)
     \<Longrightarrow> lexString (c # rest) = Some (c # d, r)"
  by simp

lemma lexString_escape:
  "lexEscape es = Some (x, rest) \<Longrightarrow> lexString rest = Some (d, r)
     \<Longrightarrow> lexString (0x5C # es) = Some (x # d, r)"
  by simp

lemma unicodeEscape_shape: "unicodeEscape c = 0x5C # tl (unicodeEscape c)"
  by (simp add: unicodeEscape_def Let_def)

lemma lexString_quoteOne:
  assumes "lexString rest = Some (d, r)"
  shows "lexString (quoteOne c @ rest) = Some (c # d, r)"
proof -
  have "(c = 0x08 \<or> c = 0x09 \<or> c = 0x0A \<or> c = 0x0C \<or> c = 0x0D \<or> c = 0x22 \<or> c = 0x5C)
      \<or> quoteOne c = unicodeEscape c
      \<or> (quoteOne c = [c] \<and> c \<noteq> 0x22 \<and> c \<noteq> 0x5C \<and> \<not> c < 0x20)"
    by (simp add: quoteOne_def)
  then consider (short) "c = 0x08 \<or> c = 0x09 \<or> c = 0x0A \<or> c = 0x0C \<or> c = 0x0D \<or> c = 0x22 \<or> c = 0x5C"
    | (uni) "quoteOne c = unicodeEscape c"
    | (plain) "quoteOne c = [c]" "c \<noteq> 0x22" "c \<noteq> 0x5C" "\<not> c < 0x20"
    by blast
  then show ?thesis
  proof cases
    case short
    then show ?thesis using assms by (elim disjE) (simp_all add: quoteOne_def)
  next
    case uni
    have "lexString (unicodeEscape c @ rest) = lexString (0x5C # (tl (unicodeEscape c) @ rest))"
      by (subst unicodeEscape_shape) simp
    also have "\<dots> = Some (c # d, r)"
      using hex4_unicodeEscape assms by (rule lexString_escape)
    finally show ?thesis using uni by simp
  next
    case plain
    then show ?thesis using assms by simp
  qed
qed

lemma surrogate_plain:
  "isHighSurrogate c \<or> isLowSurrogate c \<Longrightarrow> c \<noteq> 0x22 \<and> c \<noteq> 0x5C \<and> \<not> c < 0x20 \<and> c \<noteq> 0x60"
proof -
  assume "isHighSurrogate c \<or> isLowSurrogate c"
  then have ge: "0xD800 \<le> c" unfolding isHighSurrogate_def isLowSurrogate_def
    using order.trans[of "0xD800 :: jschar" "0xDC00" c] by auto
  have "c \<noteq> 0x22" "c \<noteq> 0x5C" "c \<noteq> 0x60" using ge by auto
  moreover have "\<not> c < 0x20" using ge order.strict_trans1[of "0xD800 :: jschar" c "0x20"] by auto
  ultimately show ?thesis by simp
qed

lemma lexString_quoteChars:
  "lexString (quoteChars X @ 0x22 # rest) = Some (X, rest)"
proof (induction X rule: quoteChars.induct)
  case 1
  show ?case by simp
next
  case (2 c)
  have e: "lexString (0x22 # rest) = Some ([], rest)" by simp
  show ?case unfolding quoteChars.simps by (rule lexString_quoteOne[OF e])
next
  case (3 c d ds)
  show ?case
  proof (cases "isHighSurrogate c \<and> isLowSurrogate d")
    case True
    with 3 have ih: "lexString (quoteChars ds @ 0x22 # rest) = Some (ds, rest)" by simp
    from True have pc: "c \<noteq> 0x22" "c \<noteq> 0x5C" "\<not> c < 0x20" using surrogate_plain by blast+
    from True have pd: "d \<noteq> 0x22" "d \<noteq> 0x5C" "\<not> d < 0x20" using surrogate_plain by blast+
    have "lexString (d # quoteChars ds @ 0x22 # rest) = Some (d # ds, rest)"
      by (rule lexString_plain[OF pd ih])
    then have r: "lexString (c # d # quoteChars ds @ 0x22 # rest) = Some (c # d # ds, rest)"
      by (rule lexString_plain[OF pc])
    have q: "quoteChars (c # d # ds) = c # d # quoteChars ds" using True by simp
    show ?thesis unfolding q append_Cons by (rule r)
  next
    case False
    with 3 have ih: "lexString (quoteChars (d # ds) @ 0x22 # rest) = Some (d # ds, rest)" by simp
    have q: "quoteChars (c # d # ds) = quoteOne c @ quoteChars (d # ds)" using False by auto
    show ?thesis unfolding q append_assoc by (rule lexString_quoteOne[OF ih])
  qed
qed

lemma lexJSON_finalText:
  "lexJSON (finalText X) = Some [TLBrace, TStr (ustr ''final''), TColon, TStr X, TRBrace]"
proof -
  have "lexString (quoteChars X @ 0x22 # ustr ''}'') = Some (X, ustr ''}'')"
    by (rule lexString_quoteChars)
  then show ?thesis
    by (simp add: finalText_def quoteJSONString_def ustr_def isJSONSpace_def isDigit_def
        startsWith_def)
qed

lemma JSON_parse_finalText:
  "JSON_parse ops (finalText X) = Inr (JObj [(ustr ''final'', JStr X)])"
  by (simp add: JSON_parse_def lexJSON_finalText)

lemma strictParse_finalText:
  "strictParse ops clock (finalText X) = Inr (Some (contentStep X (ustr ''final'')))"
  by (simp add: strictParse_def JSON_parse_finalText getProp_def getPropOpt_def nullish_def)

lemma trim_finalText: "trim (finalText X) = finalText X"
proof -
  have a: "dropWhile isWS (finalText X) = finalText X"
    by (simp add: finalText_def ustr_def isWS_def)
  have "rev (finalText X) = 0x7D # rev (ustr ''{\"final\":'' @ quoteJSONString X)"
    by (simp add: finalText_def ustr_def)
  then have "dropWhile isWS (rev (finalText X)) = rev (finalText X)"
    by (simp add: isWS_def)
  then show ?thesis by (simp add: trim_def trimEnd_def a)
qed

lemma hexDigit_not_backtick: "d < 16 \<Longrightarrow> hexDigit d \<noteq> 0x60"
proof -
  assume "d < 16"
  then have "d = 0 \<or> d = 1 \<or> d = 2 \<or> d = 3 \<or> d = 4 \<or> d = 5 \<or> d = 6 \<or> d = 7 \<or> d = 8
      \<or> d = 9 \<or> d = 10 \<or> d = 11 \<or> d = 12 \<or> d = 13 \<or> d = 14 \<or> d = 15"
    by arith
  then show ?thesis by (elim disjE) (simp_all add: hexDigit_def)
qed

lemma unicodeEscape_no_backtick: "0x60 \<notin> set (unicodeEscape c)"
proof -
  let ?n = "unat c"
  have "?n < 65536" using unsigned_less[of c] by simp
  then have "?n div 4096 < 16" "?n div 256 mod 16 < 16" "?n div 16 mod 16 < 16" "?n mod 16 < 16"
    by auto
  then show ?thesis
    using hexDigit_not_backtick[of "?n div 4096"] hexDigit_not_backtick[of "?n div 256 mod 16"]
      hexDigit_not_backtick[of "?n div 16 mod 16"] hexDigit_not_backtick[of "?n mod 16"]
    by (simp add: unicodeEscape_def Let_def)
qed

lemma quoteOne_backtick: "quoteOne 0x60 = [0x60]"
  by (simp add: quoteOne_def isHighSurrogate_def isLowSurrogate_def)

lemma quoteOne_no_backtick: "c \<noteq> 0x60 \<Longrightarrow> 0x60 \<notin> set (quoteOne c)"
  using unicodeEscape_no_backtick[of c] by (simp add: quoteOne_def)

lemma quoteOne_nonempty: "quoteOne c \<noteq> []"
  by (simp add: quoteOne_def unicodeEscape_def Let_def)

lemma includes_fence_skip: "0x60 \<notin> set q \<Longrightarrow> includesStr (q @ s) fence \<Longrightarrow> includesStr s fence"
  by (induction q) (auto simp: fence_def)

lemma includes_fence_backtick: "includesStr s fence \<Longrightarrow> 0x60 \<in> set s"
  using includesStr_hd[of s fence] by (simp add: fence_def)

lemma includes_fence_drop_tail:
  "0x60 \<notin> set t \<Longrightarrow> includesStr (s @ t) fence \<Longrightarrow> includesStr s fence"
proof (induction s)
  case Nil
  then show ?case using includes_fence_backtick[of t] by simp
next
  case (Cons c s)
  have l3: "length fence = 3" by (simp add: fence_def)
  from Cons.prems(2) have "take (length fence) (c # s @ t) = fence \<or> includesStr (s @ t) fence"
    by simp
  then consider "take 3 (c # s @ t) = fence" | "includesStr (s @ t) fence"
    unfolding l3 by blast
  then show ?case
  proof cases
    case 1
    show ?thesis
    proof (cases "2 \<le> length s")
      case True
      with 1 have "take 3 (c # s) = fence" by simp
      then have "take (length fence) (c # s) = fence" unfolding l3 .
      then show ?thesis by simp
    next
      case False
      then have ls: "length (c # s) < 3" by simp
      from 1 have len: "3 \<le> length (c # s @ t)"
        by (metis fence_def length_take min.cobounded1 length_Cons list.size(3) numeral_3_eq_3)
      have x: "(take 3 (c # s @ t)) ! length (c # s) = t ! 0"
        using ls len by (simp add: nth_append nth_Cons')
      have y: "fence ! length (c # s) = 0x60"
        using ls by (cases s; cases "tl s") (auto simp: fence_def)
      from x[unfolded 1] y have "t ! 0 = 0x60" by (simp only:)
      moreover have "t \<noteq> []" using ls len by auto
      ultimately have "0x60 \<in> set t" by (metis length_greater_0_conv nth_mem)
      with Cons.prems(1) show ?thesis by simp
    qed
  next
    case 2
    with Cons have "includesStr s fence" by simp
    then show ?thesis by simp
  qed
qed

lemma quoteChars_backtick_prefix:
  "take k (quoteChars X) = replicate k 0x60 \<Longrightarrow> take k X = replicate k 0x60"
proof (induction X arbitrary: k rule: quoteChars.induct)
  case 1
  then show ?case by simp
next
  case (2 c)
  show ?case
  proof (cases k)
    case 0
    then show ?thesis by simp
  next
    case (Suc k')
    with 2 have "hd (quoteOne c) = 0x60"
      using quoteOne_nonempty[of c] by (cases "quoteOne c") auto
    then have "0x60 \<in> set (quoteOne c)" using quoteOne_nonempty[of c] by (metis hd_in_set)
    then have "c = 0x60" using quoteOne_no_backtick by blast
    with 2 show ?thesis by (simp add: quoteOne_backtick)
  qed
next
  case (3 c d ds)
  show ?case
  proof (cases k)
    case 0
    then show ?thesis by simp
  next
    case (Suc k')
    show ?thesis
    proof (cases "isHighSurrogate c \<and> isLowSurrogate d")
      case True
      then have "c \<noteq> 0x60" using surrogate_plain by blast
      with "3.prems" True Suc show ?thesis by simp
    next
      case False
      then have q: "quoteChars (c # d # ds) = quoteOne c @ quoteChars (d # ds)" by auto
      from "3.prems" Suc q have "hd (quoteOne c) = 0x60"
        using quoteOne_nonempty[of c] by (cases "quoteOne c") auto
      then have "0x60 \<in> set (quoteOne c)" using quoteOne_nonempty[of c] by (metis hd_in_set)
      then have c: "c = 0x60" using quoteOne_no_backtick by blast
      with "3.prems" Suc q have "take k' (quoteChars (d # ds)) = replicate k' 0x60"
        by (simp add: quoteOne_backtick)
      from "3.IH"(2)[OF False this] have "take k' (d # ds) = replicate k' 0x60" .
      with c Suc show ?thesis by simp
    qed
  qed
qed

lemma quoteChars_fence: "includesStr (quoteChars X) fence \<Longrightarrow> includesStr X fence"
proof (induction X rule: quoteChars.induct)
  case 1
  then show ?case by (simp add: fence_def)
next
  case (2 c)
  then have "0x60 \<in> set (quoteOne c)" using includes_fence_backtick by fastforce
  then have "c = 0x60" using quoteOne_no_backtick by blast
  with 2 show ?case by (simp add: quoteOne_backtick fence_def)
next
  case (3 c d ds)
  show ?case
  proof (cases "isHighSurrogate c \<and> isLowSurrogate d")
    case True
    then have "0x60 \<notin> set [c, d]" using surrogate_plain[of c] surrogate_plain[of d] by auto
    moreover have "includesStr ([c, d] @ quoteChars ds) fence" using "3.prems" True by simp
    ultimately have "includesStr (quoteChars ds) fence" by (rule includes_fence_skip)
    with "3.IH"(1) True have "includesStr ds fence" by simp
    then show ?thesis by simp
  next
    case False
    then have q: "quoteChars (c # d # ds) = quoteOne c @ quoteChars (d # ds)" by auto
    show ?thesis
    proof (cases "c = 0x60")
      case c: True
      with "3.prems" q have "includesStr (0x60 # quoteChars (d # ds)) fence"
        by (simp add: quoteOne_backtick)
      then consider "take 2 (quoteChars (d # ds)) = replicate 2 0x60"
        | "includesStr (quoteChars (d # ds)) fence"
        by (auto simp: fence_def numeral_2_eq_2)
      then show ?thesis
      proof cases
        case 1
        from quoteChars_backtick_prefix[OF this] have "take 2 (d # ds) = replicate 2 0x60" .
        then have "take 3 (c # d # ds) = fence" using c by (simp add: fence_def numeral_2_eq_2)
        then show ?thesis by (simp add: fence_def)
      next
        case 2
        with "3.IH"(2) False have "includesStr (d # ds) fence" by simp
        then show ?thesis by simp
      qed
    next
      case nc: False
      from "3.prems" q have "includesStr (quoteOne c @ quoteChars (d # ds)) fence" by simp
      with quoteOne_no_backtick[OF nc] have "includesStr (quoteChars (d # ds)) fence"
        by (rule includes_fence_skip)
      with "3.IH"(2) False have "includesStr (d # ds) fence" by simp
      then show ?thesis by simp
    qed
  qed
qed

lemma finalText_fence: "includesStr (finalText X) fence \<Longrightarrow> includesStr X fence"
proof -
  assume a: "includesStr (finalText X) fence"
  have e: "finalText X = (ustr ''{\"final\":'' @ [0x22]) @ (quoteChars X @ [0x22, 0x7D])"
    by (simp add: finalText_def quoteJSONString_def ustr_def)
  have "0x60 \<notin> set (ustr ''{\"final\":'' @ [0x22])" by (simp add: ustr_def)
  with a[unfolded e] have "includesStr (quoteChars X @ [0x22, 0x7D]) fence"
    using includes_fence_skip by blast
  moreover have "0x60 \<notin> set [0x22, 0x7D :: jschar]" by simp
  ultimately have "includesStr (quoteChars X) fence" using includes_fence_drop_tail by blast
  then show ?thesis by (rule quoteChars_fence)
qed

lemma tryParseToolCall_finalText:
  assumes "\<not> fenceMatches (finalText X)"
  shows "tryParseToolCall ops clock (finalText X) = contentStep X (ustr ''final'')"
proof -
  have "trim (stripFence (finalText X)) = finalText X"
    using stripFence_no_match[OF assms] trim_finalText by simp
  then have "tryBody ops clock (finalText X) = Inr (Some (contentStep X (ustr ''final'')))"
    by (simp add: tryBody_def strictParse_finalText)
  then show ?thesis by (simp add: tryParseToolCall_def)
qed

text \<open>
  C3.  The round trip fails for a final answer that holds a fenced block.  For
  \<open>X = ```a```\<close> the JSON text is \<open>{"final":"```a```"}\<close>; the pattern of line 47, which
  is not anchored, matches inside the string literal and rewrites it before
  \<open>JSON.parse\<close> reads the text, so the content returned is \<open>a\<close>, not \<open>X\<close>.  (The
  pattern of \<open>robustParseArgs\<close> is anchored and matches a fence around the whole text
  only.)
\<close>

theorem final_fenced_content_altered:
  "tryParseToolCall intNumops (\<lambda>i. 0) (finalText (ustr ''```a```''))
     = contentStep (ustr ''a'') (ustr ''final'')
   \<and> (contentStep (ustr ''a'') (ustr ''final'') :: int step)
     \<noteq> contentStep (ustr ''```a```'') (ustr ''final'')"
proof -
  have q: "finalText (ustr ''```a```'') = ustr ''{\"final\":\"'' @ fence @ ustr ''a'' @ fence @ ustr ''\"}''"
    by (simp add: finalText_def quoteJSONString_def quoteOne_def isHighSurrogate_def
        isLowSurrogate_def ustr_def fence_def)
  have s: "stripFence (finalText (ustr ''```a```'')) = finalText (ustr ''a'')"
    unfolding q
    by (subst stripFence_block)
       (simp_all add: ustr_def skipJsonTag_def toLowerASCII_def isWS_def trimEnd_def
         finalText_def quoteJSONString_def quoteOne_def isHighSurrogate_def isLowSurrogate_def)
  have "tryBody intNumops (\<lambda>i. 0) (finalText (ustr ''```a```''))
          = Inr (Some (contentStep (ustr ''a'') (ustr ''final'')))"
    by (simp add: tryBody_def s trim_finalText strictParse_finalText)
  then have "tryParseToolCall intNumops (\<lambda>i. 0) (finalText (ustr ''```a```''))
     = contentStep (ustr ''a'') (ustr ''final'')"
    by (simp add: tryParseToolCall_def)
  then show ?thesis by (simp add: contentStep_def ustr_def)
qed

text \<open>
  Away from that defect the round trip holds: when the fence pattern does not match the
  JSON text \<open>{"final":<X>}\<close>, and so for every \<open>X\<close> without three consecutive
  backticks, \<open>tryParseToolCall\<close> returns the content \<open>X\<close> with the stop reason
  \<open>final\<close>, whatever escaping \<open>X\<close> needs.
\<close>

lemma final_roundtrip_without_fence:
  "(\<not> includesStr X fence \<longrightarrow> \<not> fenceMatches (finalText X)) \<and>
   (\<not> fenceMatches (finalText X) \<longrightarrow>
      tryParseToolCall ops clock (finalText X) = contentStep X (ustr ''final''))"
  using fenceMatches_includes finalText_fence tryParseToolCall_finalText by blast

lemma final_roundtrip_example:
  \<open>\<not> includesStr (ustr ''say "hi" '' @ [0x5C, 0x0A, 0xD800, 0x60, 0x60]) fence \<and>
   \<not> fenceMatches (finalText (ustr ''say "hi" '' @ [0x5C, 0x0A, 0xD800, 0x60, 0x60])) \<and>
   finalText (ustr ''say "hi" '' @ [0x5C, 0x0A, 0xD800, 0x60, 0x60])
     = ustr ''{"final":"say '' @ [0x5C] @ ustr ''"hi'' @ [0x5C] @ ustr ''" '' @ [0x5C, 0x5C, 0x5C] @ ustr ''n'' @ [0x5C] @ ustr ''ud800``"}'' \<and>
   tryParseToolCall intNumops (\<lambda>i. 0) (finalText (ustr ''say "hi" '' @ [0x5C, 0x0A, 0xD800, 0x60, 0x60]))
     = contentStep (ustr ''say "hi" '' @ [0x5C, 0x0A, 0xD800, 0x60, 0x60]) (ustr ''final'')\<close>
proof -
  let ?X = \<open>ustr ''say "hi" '' @ [0x5C, 0x0A, 0xD800, 0x60, 0x60]\<close>
  have a: "\<not> includesStr ?X fence" by (simp add: ustr_def fence_def)
  have b: \<open>finalText ?X = ustr ''{"final":"say '' @ [0x5C] @ ustr ''"hi'' @ [0x5C] @ ustr ''" '' @ [0x5C, 0x5C, 0x5C] @ ustr ''n'' @ [0x5C] @ ustr ''ud800``"}''\<close>
    by (simp add: finalText_def quoteJSONString_def quoteOne_def isHighSurrogate_def
        isLowSurrogate_def ustr_def unicodeEscape_def hexDigit_def)
  from final_roundtrip_without_fence[of ?X intNumops "\<lambda>i. 0"] a b show ?thesis by simp
qed


section \<open>Properties of the loop\<close>

subsection \<open>Dispatch\<close>

lemma dispatchUnknown_state:
  "history (dispatchUnknown c name st)
     = history st @ [toolTurn (nc_id c)
                       (ustr ''OBSERVATION['' @ name @ ustr '']: '' @ unknownToolMessage name)]"
  "messages (dispatchUnknown c name st) = messages st"
  "world (dispatchUnknown c name st) = world st"
  "provider_state (dispatchUnknown c name st) = provider_state st"
  "thoughts (dispatchUnknown c name st) = thoughts st @ [ustr ''[act] '' @ unknownToolMessage name]"
  by (simp_all add: dispatchUnknown_def Let_def push_def onThought_def)

lemma toolOutcome_Inl:
  "toolOutcome cfg name r = Inl e \<Longrightarrow> r = Unreadable e"
  by (cases r) (simp_all add: toolOutcome_def runWithTimeout_def)

text \<open>
  Executing a known tool returns; it appends one tool turn with the \<open>id\<close> of its call
  unless the tool failed with an unreadable value.
\<close>

lemma dispatchKnown_cases:
  "(\<exists>e st'. dispatchKnown ops cfg fn c name st = Some (Some e, st')
        \<and> history st' = history st \<and> messages st' = messages st
        \<and> provider_state st' = provider_state st
        \<and> (\<exists>args w. fst (implementation fn args w) = Unreadable e))
   \<or> (\<exists>st' obs. dispatchKnown ops cfg fn c name st = Some (None, st')
        \<and> history st' = history st @ [toolTurn (nc_id c) obs]
        \<and> messages st' = messages st \<and> provider_state st' = provider_state st)"
proof -
  let ?st1 = "onThought (ustr ''[act] Executing '' @ name @ ustr '' ''
                            @ stringifyJson ops (nc_args c)) st"
  obtain r w where i: "implementation fn (nc_args c) (world ?st1) = (r, w)"
    by (cases "implementation fn (nc_args c) (world ?st1)")
  show ?thesis
  proof (cases "toolOutcome cfg name r")
    case (Inl e)
    from toolOutcome_Inl[OF Inl] i have "fst (implementation fn (nc_args c) (world ?st1)) = Unreadable e"
      by simp
    then have "\<exists>args w. fst (implementation fn args w) = Unreadable e" by blast
    moreover have "dispatchKnown ops cfg fn c name st = Some (Some e, ?st1\<lparr>world := w\<rparr>)"
      using i Inl by (simp add: dispatchKnown_def Let_def)
    ultimately show ?thesis by (simp add: onThought_def)
  next
    case (Inr hv)
    obtain h v where hv: "hv = (h, v)" by (cases hv)
    obtain out where s: "sanitizeObservation ops (obsTruncateChars cfg) h v = Some out"
      using sanitizeObservation_total by blast
    have "dispatchKnown ops cfg fn c name st
        = Some (None,
            push (toolTurn (nc_id c) (ustr ''OBSERVATION['' @ name @ ustr '']: '' @ out))
              (onThought (ustr ''[observe] '' @ name @ ustr '' => '' @ take 120 out
                           @ (if length out > 120 then [ellipsis] else [])) (?st1\<lparr>world := w\<rparr>)))"
      using i Inr hv s by (simp add: dispatchKnown_def Let_def)
    then show ?thesis by (auto simp: push_def onThought_def)
  qed
qed

text \<open>
  A dispatch returns, and appends one tool turn with the \<open>id\<close> of its call unless it
  raises; it raises for a name that cannot be written as a string and for a tool that
  failed with an unreadable value only.
\<close>

lemma dispatch_cases:
  "(\<exists>e st'. dispatch ops cfg reg c st = Some (Some e, st')
        \<and> history st' = history st \<and> messages st' = messages st
        \<and> provider_state st' = provider_state st
        \<and> (\<not> isString (nc_name c) \<or> \<not> readable reg))
   \<or> (\<exists>st' obs. dispatch ops cfg reg c st = Some (None, st')
         \<and> history st' = history st @ [toolTurn (nc_id c) obs]
         \<and> messages st' = messages st \<and> provider_state st' = provider_state st)"
proof (cases "nameString ops (nc_name c)")
  case (Inl e)
  then have "\<not> isString (nc_name c)"
    by (auto simp: isString_def nameString_def split: option.splits json.splits)
  with Inl show ?thesis by (simp add: dispatch_def)
next
  case (Inr name)
  show ?thesis
  proof (cases "registryGet reg (nc_name c)")
    case None
    with Inr have "dispatch ops cfg reg c st = Some (None, dispatchUnknown c name st)"
      by (simp add: dispatch_def)
    then show ?thesis using dispatchUnknown_state[of c name st] by blast
  next
    case (Some fn)
    then obtain s where "reg s = Some fn"
      by (auto simp: registryGet_def split: option.splits json.splits)
    then have r: "(\<exists>args w e. fst (implementation fn args w) = Unreadable e) \<longrightarrow> \<not> readable reg"
      unfolding readable_def by blast
    from Inr Some have d: "dispatch ops cfg reg c st = dispatchKnown ops cfg fn c name st"
      by (simp add: dispatch_def)
    from dispatchKnown_cases[of ops cfg fn c name st] show ?thesis
      unfolding d using r by blast
  qed
qed

text \<open>
  The loop over the calls returns; it appends tool turns only, one per call and in the
  order of the calls (up to the call that raises, if one does), and leaves the messages
  alone.
\<close>

lemma dispatchAll_result:
  "\<exists>e st' ts. dispatchAll ops cfg reg cs st = Some (e, st')
      \<and> history st' = history st @ ts
      \<and> messages st' = messages st
      \<and> provider_state st' = provider_state st
      \<and> (\<forall>t \<in> set ts. turn_role t = Tool \<and> turn_tool_calls t = None
                        \<and> (\<exists>c \<in> set cs. turn_tool_call_id t = Some (nc_id c)))
      \<and> (e = None \<longrightarrow> map turn_tool_call_id ts = map (\<lambda>c. Some (nc_id c)) cs)
      \<and> (e \<noteq> None \<longrightarrow> (\<exists>c \<in> set cs. \<not> isString (nc_name c)) \<or> \<not> readable reg)"
proof (induction cs arbitrary: st)
  case Nil
  show ?case by simp
next
  case (Cons c cs)
  from dispatch_cases[of ops cfg reg c st]
  consider (raise) e st1 where "dispatch ops cfg reg c st = Some (Some e, st1)"
      "history st1 = history st" "messages st1 = messages st"
      "provider_state st1 = provider_state st"
      "\<not> isString (nc_name c) \<or> \<not> readable reg"
    | (ok) st1 obs where "dispatch ops cfg reg c st = Some (None, st1)"
      "history st1 = history st @ [toolTurn (nc_id c) obs]"
      "messages st1 = messages st" "provider_state st1 = provider_state st"
    by blast
  then show ?case
  proof cases
    case raise
    then have "dispatchAll ops cfg reg (c # cs) st = Some (Some e, st1)
        \<and> history st1 = history st @ [] \<and> messages st1 = messages st
        \<and> provider_state st1 = provider_state st
        \<and> ((\<exists>c' \<in> set (c # cs). \<not> isString (nc_name c')) \<or> \<not> readable reg)"
      by auto
    then show ?thesis by fastforce
  next
    case ok
    note d = ok(1) and h = ok(2) and m = ok(3) and p = ok(4)
    from Cons.IH[of st1] obtain e st' ts where
      r: "dispatchAll ops cfg reg cs st1 = Some (e, st')"
      and h': "history st' = history st1 @ ts"
      and m': "messages st' = messages st1" and p': "provider_state st' = provider_state st1"
      and t: "\<forall>t \<in> set ts. turn_role t = Tool \<and> turn_tool_calls t = None
                        \<and> (\<exists>c \<in> set cs. turn_tool_call_id t = Some (nc_id c))"
      and o: "e = None \<longrightarrow> map turn_tool_call_id ts = map (\<lambda>c. Some (nc_id c)) cs"
      and x: "e \<noteq> None \<longrightarrow> (\<exists>c \<in> set cs. \<not> isString (nc_name c)) \<or> \<not> readable reg"
      by blast
    let ?ts = "toolTurn (nc_id c) obs # ts"
    have "dispatchAll ops cfg reg (c # cs) st = Some (e, st')" using d r by simp
    moreover have "history st' = history st @ ?ts" using h h' by simp
    moreover have "messages st' = messages st" using m m' by simp
    moreover have "provider_state st' = provider_state st" using p p' by simp
    moreover have "\<forall>t \<in> set ?ts. turn_role t = Tool \<and> turn_tool_calls t = None
                        \<and> (\<exists>c' \<in> set (c # cs). turn_tool_call_id t = Some (nc_id c'))"
      using t by (auto simp: toolTurn_def)
    moreover have "e = None \<longrightarrow> map turn_tool_call_id ?ts = map (\<lambda>c. Some (nc_id c)) (c # cs)"
      using o by (simp add: toolTurn_def)
    moreover have "e \<noteq> None \<longrightarrow> (\<exists>c' \<in> set (c # cs). \<not> isString (nc_name c')) \<or> \<not> readable reg"
      using x by auto
    ultimately show ?thesis by blast
  qed
qed

lemma nameString_string: "nameString ops (Some (JStr s)) = Inr s"
  by (simp add: nameString_def)

text \<open>
  A name that cannot be written as a string (an object with a property \<open>toString\<close>, or
  an array that holds one) ends the run with the TypeError of the template literal.
\<close>

lemma dispatch_unwritable_name:
  "nameString ops (nc_name c) = Inl e \<Longrightarrow> dispatch ops cfg reg c st = Some (Some e, st)"
  by (simp add: dispatch_def)



subsection \<open>One iteration\<close>

lemma handleStep_calls:
  assumes "stepCalls step \<noteq> []"
  shows "\<exists>out st' ts. handleStep ops cfg reg freshId i step st = Some (out, st')
      \<and> out \<noteq> Return
      \<and> messages st' = messages st
      \<and> provider_state st' = provider_state st
      \<and> history st' = history st @ callsTurn ops (normalizeCalls ops freshId i (stepCalls step)) # ts
      \<and> (\<forall>t \<in> set ts. turn_role t = Tool \<and> turn_tool_calls t = None
            \<and> (\<exists>c \<in> set (normalizeCalls ops freshId i (stepCalls step)).
                  turn_tool_call_id t = Some (nc_id c)))
      \<and> (out = Continue \<longrightarrow>
            map turn_tool_call_id ts
              = map (\<lambda>c. Some (nc_id c)) (normalizeCalls ops freshId i (stepCalls step)))
      \<and> (out \<noteq> Continue \<longrightarrow>
            (\<exists>c \<in> set (normalizeCalls ops freshId i (stepCalls step)). \<not> isString (nc_name c))
            \<or> \<not> readable reg)"
proof -
  let ?N = "normalizeCalls ops freshId i (stepCalls step)"
  let ?st2 = "push (callsTurn ops ?N)
                (onThought (ustr ''[plan] Model proposed '' @ natToString (length (stepCalls step))
                             @ ustr '' tool call(s).'') st)"
  from dispatchAll_result[of ops cfg reg ?N ?st2] obtain e st' ts where
    r: "dispatchAll ops cfg reg ?N ?st2 = Some (e, st')"
    and h: "history st' = history ?st2 @ ts"
    and m: "messages st' = messages ?st2" and p: "provider_state st' = provider_state ?st2"
    and t: "\<forall>t \<in> set ts. turn_role t = Tool \<and> turn_tool_calls t = None
                        \<and> (\<exists>c \<in> set ?N. turn_tool_call_id t = Some (nc_id c))"
    and o: "e = None \<longrightarrow> map turn_tool_call_id ts = map (\<lambda>c. Some (nc_id c)) ?N"
    and x: "e \<noteq> None \<longrightarrow> (\<exists>c \<in> set ?N. \<not> isString (nc_name c)) \<or> \<not> readable reg"
    by blast
  let ?out = "case e of None \<Rightarrow> Continue | Some x \<Rightarrow> Throw x"
  have "handleStep ops cfg reg freshId i step st = Some (?out, st')"
    using assms r by (cases e) (simp_all add: handleStep_def Let_def)
  moreover have "?out \<noteq> Return" by (cases e) simp_all
  moreover have "messages st' = messages st" using m by (simp add: push_def onThought_def)
  moreover have "provider_state st' = provider_state st" using p by (simp add: push_def onThought_def)
  moreover have "history st' = history st @ callsTurn ops ?N # ts"
    using h by (simp add: push_def onThought_def)
  moreover have "?out = Continue \<longrightarrow> map turn_tool_call_id ts = map (\<lambda>c. Some (nc_id c)) ?N"
    using o by (cases e) simp_all
  moreover have "?out \<noteq> Continue \<longrightarrow> (\<exists>c \<in> set ?N. \<not> isString (nc_name c)) \<or> \<not> readable reg"
    using x by (cases e) simp_all
  ultimately show ?thesis using t by blast
qed

lemma handleStep_content:
  assumes "stepCalls step = []"
  shows "\<exists>out st' c. handleStep ops cfg reg freshId i step st = Some (out, st')
      \<and> provider_state st' = provider_state st
      \<and> history st' = history st @ [assistantTurn (Some (JStr c))]
      \<and> (out = Continue \<or> out = Return)"
proof (cases "textContent (content step)")
  case None
  with assms have "handleStep ops cfg reg freshId i step st
      = Some (Continue, push (assistantTurn (Some (JStr replanMessage)))
                    (onThought (ustr ''[plan] Model produced no content and no tool. Replanning.'') st))"
    by (simp add: handleStep_def Let_def)
  then show ?thesis by (auto simp: push_def onThought_def intro: exI[of _ replanMessage])
next
  case (Some c)
  then have "content step = Some (JStr c)"
    by (auto simp: textContent_def split: option.splits json.splits if_splits)
  with assms Some have "\<exists>out. handleStep ops cfg reg freshId i step st
      = Some (out, push (assistantTurn (Some (JStr c)))
           (onMessage (ustr ''agent'') c
              (onThought (ustr ''[reflect] Model produced content. stopReason=''
                  @ strOr (stopReason step) (strOr (stop_reason step) (ustr ''continue''))) st)))
      \<and> (out = Continue \<or> out = Return)"
    by (simp add: handleStep_def Let_def)
  then show ?thesis by (auto simp: push_def onThought_def onMessage_def)
qed



subsection \<open>The history of a run\<close>

lemma checkHistory_append:
  "checkHistory ids (h @ t) \<longleftrightarrow> checkHistory ids h \<and> checkHistory (lastIds ids h) t"
  by (induction h arbitrary: ids) (auto split: role.splits)

lemma checkHistory_tools:
  assumes "\<forall>t \<in> set ts. turn_role t = Tool \<and> (\<exists>c \<in> set N. turn_tool_call_id t = Some (nc_id c))"
  shows "checkHistory (map nc_id N) ts"
  using assms by (induction ts) auto

lemma issuedIds_callsTurn: "issuedIds (callsTurn ops N) = map nc_id N"
  by (simp add: issuedIds_def callsTurn_def comp_def)

lemma handleStep_history:
  assumes inv: "checkHistory [] (history st)"
  shows "\<exists>out st'. handleStep ops cfg reg freshId i step st = Some (out, st')
           \<and> provider_state st' = provider_state st \<and> checkHistory [] (history st')"
proof (cases "stepCalls step = []")
  case True
  from handleStep_content[OF True, of ops cfg reg freshId i st] obtain out st' c where
    r: "handleStep ops cfg reg freshId i step st = Some (out, st')"
    and p: "provider_state st' = provider_state st"
    and h: "history st' = history st @ [assistantTurn (Some (JStr c))]"
    by blast
  have "checkHistory [] (history st')"
    unfolding h checkHistory_append using inv by (simp add: assistantTurn_def isString_def)
  with r p show ?thesis by blast
next
  case False
  let ?N = "normalizeCalls ops freshId i (stepCalls step)"
  from handleStep_calls[OF False, of ops cfg reg freshId i st] obtain out st' ts where
    r: "handleStep ops cfg reg freshId i step st = Some (out, st')"
    and p: "provider_state st' = provider_state st"
    and h: "history st' = history st @ callsTurn ops ?N # ts"
    and t: "\<forall>t \<in> set ts. turn_role t = Tool \<and> turn_tool_calls t = None
            \<and> (\<exists>c \<in> set ?N. turn_tool_call_id t = Some (nc_id c))"
    by blast
  from t have "checkHistory (map nc_id ?N) ts" by (intro checkHistory_tools) blast
  moreover have "turn_role (callsTurn ops ?N) = Assistant"
    and "isString (turn_content (callsTurn ops ?N))"
    by (simp_all add: callsTurn_def isString_def)
  ultimately have "checkHistory (lastIds [] (history st)) (callsTurn ops ?N # ts)"
    by (simp add: issuedIds_callsTurn)
  then have "checkHistory [] (history st')"
    unfolding h checkHistory_append using inv by simp
  with r p show ?thesis by blast
qed

lemma iteration_history:
  assumes inv: "checkHistory [] (history st)"
  shows "\<exists>out st'. iteration ops cfg reg freshId provider i st = Some (out, st')
           \<and> checkHistory [] (history st')"
proof (cases "provider (history st) (provider_state st)")
  case (Pair r p)
  show ?thesis
  proof (cases r)
    case (Inl e)
    with Pair inv show ?thesis by (simp add: iteration_def)
  next
    case (Inr step)
    from inv have "checkHistory [] (history (st\<lparr>provider_state := p\<rparr>))" by simp
    from handleStep_history[OF this, of ops cfg reg freshId i step]
    show ?thesis using Pair Inr by (auto simp: iteration_def)
  qed
qed

lemma loop_history:
  "checkHistory [] (history st) \<Longrightarrow>
     \<exists>out st'. loop ops cfg reg freshId provider i n st = Some (out, st')
        \<and> checkHistory [] (history st')"
proof (induction n arbitrary: i st)
  case 0
  then show ?case by (simp add: onMessage_def)
next
  case (Suc n)
  from iteration_history[OF Suc.prems, of ops cfg reg freshId provider i] obtain out st1 where
    it: "iteration ops cfg reg freshId provider i st = Some (out, st1)"
    and inv: "checkHistory [] (history st1)" by blast
  show ?case
  proof (cases out)
    case Continue
    with it have "loop ops cfg reg freshId provider i (Suc n) st
        = loop ops cfg reg freshId provider (Suc i) n st1" by simp
    with Suc.IH[OF inv, of "Suc i"] show ?thesis by simp
  next
    case Return
    with it inv show ?thesis by simp
  next
    case (Throw e)
    with it inv show ?thesis by simp
  qed
qed

text \<open>
  C9.  A run always ends, by returning or with an exception (of the provider, of a name
  that cannot be written as a string, or of a tool that failed with an unreadable value),
  and in the history it leaves, however it ends, every assistant turn has a string as
  content and every tool turn carries an \<open>id\<close> of the \<open>tool_calls\<close> of the last
  assistant turn before it, with tool turns only in between.
\<close>

theorem run_history_invariant:
  "\<exists>out st'. run ops cfg tools freshId provider userInput w p = Some (out, st')
      \<and> checkHistory [] (history st')"
  unfolding run_def by (rule loop_history) (simp add: onMessage_def)

subsection \<open>A planner that never finishes\<close>

lemma isFinal_continue: "\<not> isFinal (ustr ''continue'')"
  by (simp add: isFinal_def ustr_def toLowerASCII_def)

lemma handleStep_plain:
  assumes "c \<noteq> []"
  shows "\<exists>st'. handleStep ops cfg reg freshId i (contentStep c (ustr ''continue'')) st
            = Some (Continue, st')
        \<and> provider_state st' = provider_state st
        \<and> history st' = history st @ [assistantTurn (Some (JStr c))]
        \<and> messages st' = messages st @ [(ustr ''agent'', c)]"
proof -
  have r: "strOr (Some (ustr ''continue'')) (strOr None (ustr ''continue'')) = ustr ''continue''"
    by (simp add: strOr_def ustr_def)
  show ?thesis
    using assms isFinal_continue
    by (simp add: handleStep_def Let_def contentStep_def stepCalls_def textContent_def r
        push_def onThought_def onMessage_def)
qed

lemma loop_stuck:
  assumes plain: "\<forall>h q. \<exists>c q'. c \<noteq> [] \<and> provider h q = (Inr (contentStep c (ustr ''continue'')), q')"
  shows "\<exists>st'. loop ops cfg reg freshId (counting provider) i n st = Some (Return, st')
      \<and> snd (provider_state st') = snd (provider_state st) + n
      \<and> length (history st') = length (history st) + n
      \<and> length (messages st') = length (messages st) + n + 1
      \<and> last (messages st') = (ustr ''agent'', stuckMessage)"
proof (induction n arbitrary: i st)
  case 0
  show ?case by (simp add: onMessage_def)
next
  case (Suc n)
  from plain obtain c q' where c: "c \<noteq> []"
    and pr: "provider (history st) (fst (provider_state st)) = (Inr (contentStep c (ustr ''continue'')), q')"
    by blast
  let ?st0 = "st\<lparr>provider_state := (q', Suc (snd (provider_state st)))\<rparr>"
  from handleStep_plain[OF c, of ops cfg reg freshId i ?st0] obtain st1 where
    hs: "handleStep ops cfg reg freshId i (contentStep c (ustr ''continue'')) ?st0 = Some (Continue, st1)"
    and p1: "provider_state st1 = provider_state ?st0"
    and h1: "history st1 = history ?st0 @ [assistantTurn (Some (JStr c))]"
    and m1: "messages st1 = messages ?st0 @ [(ustr ''agent'', c)]"
    by blast
  have it: "iteration ops cfg reg freshId (counting provider) i st = Some (Continue, st1)"
    using pr hs by (simp add: iteration_def counting_def)
  from Suc.IH[of "Suc i" st1] obtain st' where
    l: "loop ops cfg reg freshId (counting provider) (Suc i) n st1 = Some (Return, st')"
    and p: "snd (provider_state st') = snd (provider_state st1) + n"
    and h: "length (history st') = length (history st1) + n"
    and m: "length (messages st') = length (messages st1) + n + 1"
    and s: "last (messages st') = (ustr ''agent'', stuckMessage)"
    by blast
  have "loop ops cfg reg freshId (counting provider) i (Suc n) st = Some (Return, st')"
    using it l by simp
  moreover have "snd (provider_state st') = snd (provider_state st) + Suc n"
    using p p1 by simp
  moreover have "length (history st') = length (history st) + Suc n" using h h1 by simp
  moreover have "length (messages st') = length (messages st) + Suc n + 1" using m m1 by simp
  ultimately show ?case using s by blast
qed

text \<open>
  C2.  With a provider that always resolves to non-empty content with the stop reason
  \<open>continue\<close>, \<open>run\<close> returns (no exception) after exactly \<open>maxTurns\<close> calls of the
  provider; its last message is the stuck-run message, after the user's message and one
  message per turn, and the history has one assistant turn per turn after the user turn.
\<close>

theorem run_stuck_after_maxTurns:
  assumes "\<forall>h q. \<exists>c q'. c \<noteq> [] \<and> provider h q = (Inr (contentStep c (ustr ''continue'')), q')"
  shows "\<exists>st'. run ops cfg tools freshId (counting provider) userInput w (q0, 0) = Some (Return, st')
      \<and> snd (provider_state st') = maxTurns cfg
      \<and> length (history st') = 1 + maxTurns cfg
      \<and> length (messages st') = maxTurns cfg + 2
      \<and> last (messages st') = (ustr ''agent'', stuckMessage)"
proof -
  let ?st = "onMessage (ustr ''user'') userInput
          \<lparr>history = [\<lparr>turn_role = User, turn_content = Some (JStr userInput),
                       turn_tool_calls = None, turn_tool_call_id = None\<rparr>],
           thoughts = [], messages = [], world = w, provider_state = (q0, 0::nat)\<rparr>"
  from loop_stuck[OF assms, of ops cfg "buildRegistry tools" freshId 0 "maxTurns cfg" ?st]
  show ?thesis by (simp add: run_def onMessage_def)
qed


subsection \<open>Examples\<close>

theorem run_stuck_after_maxTurns_witness:
  "(\<forall>h q. \<exists>c q'. c \<noteq> [] \<and> stubProvider thinkingStep h q = (Inr (contentStep c (ustr ''continue'')), q'))
   \<and> (\<exists>st'. run intNumops defaultConfig ([] :: (int, unit) toolfn option list) (\<lambda>i idx. ustr ''id'')
              (counting (stubProvider thinkingStep)) (ustr ''hello'') () ((), 0) = Some (Return, st')
        \<and> snd (provider_state st') = 10
        \<and> length (history st') = 11
        \<and> length (messages st') = 12
        \<and> last (messages st') = (ustr ''agent'', stuckMessage))"
proof -
  have h: "\<forall>h q. \<exists>c q'. c \<noteq> [] \<and> stubProvider thinkingStep h q
              = (Inr (contentStep c (ustr ''continue'') :: int step), q')"
    by (simp add: stubProvider_def thinkingStep_def ustr_def contentStep_def)
  from run_stuck_after_maxTurns[OF h, of intNumops defaultConfig "[]" "\<lambda>i idx. ustr ''id''"
      "ustr ''hello''" "()" "()"] h
  show ?thesis by (simp add: defaultConfig_def)
qed



theorem run_history_invariant_witness:
  "\<exists>out st'. run intNumops defaultConfig [Some (echoTool (ustr ''calculator''))]
           (\<lambda>i idx. ustr ''id'') (stubProvider callsAndContentStep) (ustr ''2+2'') () ()
             = Some (out, st')
      \<and> checkHistory [] (history st')"
  by (rule run_history_invariant)


subsection \<open>Two calls of one tool\<close>

lemma twoCallsText_plain: "stripFence twoCallsText = twoCallsText"
proof -
  have "\<not> includesStr twoCallsText fence"
    using includes_fence_backtick[of twoCallsText] by (auto simp: twoCallsText_def ustr_def)
  then show ?thesis using fenceMatches_includes stripFence_no_match by blast
qed

lemma twoCallsText_trim: "trim twoCallsText = twoCallsText"
  by (simp add: trim_def trimEnd_def twoCallsText_def ustr_def isWS_def)

lemma twoCallsText_parse:
  "JSON_parse ops twoCallsText =
     Inr (JObj [(ustr ''tool_calls'',
           JArr [JObj [(ustr ''name'', JStr (ustr ''calculator'')),
                       (ustr ''arguments'', JObj [(ustr ''expression'', JStr (ustr ''1+1''))])],
                 JObj [(ustr ''name'', JStr (ustr ''calculator'')),
                       (ustr ''arguments'', JObj [(ustr ''expression'', JStr (ustr ''2+2''))])]])])"
  by (simp add: JSON_parse_def twoCallsText_def ustr_def isJSONSpace_def isDigit_def startsWith_def)

lemma twoCallsText_decision:
  "tryParseToolCall ops clock twoCallsText =
     callsStep [parsedCall (Some (JStr (ustr ''calculator''))) (Some (JStr (ustr ''calculator'')))
                  (JObj [(ustr ''expression'', JStr (ustr ''1+1''))]),
                parsedCall (Some (JStr (ustr ''calculator''))) (Some (JStr (ustr ''calculator'')))
                  (JObj [(ustr ''expression'', JStr (ustr ''2+2''))])]"
proof -
  have "toolCallsCase ops clock (JObj [(ustr ''tool_calls'',
           JArr [JObj [(ustr ''name'', JStr (ustr ''calculator'')),
                       (ustr ''arguments'', JObj [(ustr ''expression'', JStr (ustr ''1+1''))])],
                 JObj [(ustr ''name'', JStr (ustr ''calculator'')),
                       (ustr ''arguments'', JObj [(ustr ''expression'', JStr (ustr ''2+2''))])]])])
     = Some (callsStep [parsedCall (Some (JStr (ustr ''calculator''))) (Some (JStr (ustr ''calculator'')))
                  (JObj [(ustr ''expression'', JStr (ustr ''1+1''))]),
                parsedCall (Some (JStr (ustr ''calculator''))) (Some (JStr (ustr ''calculator'')))
                  (JObj [(ustr ''expression'', JStr (ustr ''2+2''))])])"
    by (simp add: toolCallsCase_def parseCall_def getPropOpt_def orElse_def truthy_def
        coalesce_def nullish_def robustParseArgs_def List.map_filter_def List.enumerate_eq_zip
        Let_def ustr_def upt_rec)
  then have "strictParse ops clock twoCallsText
     = Inr (Some (callsStep [parsedCall (Some (JStr (ustr ''calculator''))) (Some (JStr (ustr ''calculator'')))
                  (JObj [(ustr ''expression'', JStr (ustr ''1+1''))]),
                parsedCall (Some (JStr (ustr ''calculator''))) (Some (JStr (ustr ''calculator'')))
                  (JObj [(ustr ''expression'', JStr (ustr ''2+2''))])]))"
    by (simp add: strictParse_def twoCallsText_parse getProp_def getPropOpt_def nullish_def
        otherCases_def)
  then show ?thesis
    by (simp add: tryParseToolCall_def tryBody_def twoCallsText_plain twoCallsText_trim)
qed


lemma twoCalls_normalized:
  "normalizeCalls intNumops freshId i
     (stepCalls (callsStep
        [parsedCall (Some (JStr (ustr ''calculator''))) (Some (JStr (ustr ''calculator'')))
           (JObj [(ustr ''expression'', JStr (ustr ''1+1''))]),
         parsedCall (Some (JStr (ustr ''calculator''))) (Some (JStr (ustr ''calculator'')))
           (JObj [(ustr ''expression'', JStr (ustr ''2+2''))])]))
   = [\<lparr>nc_id = JStr (ustr ''calculator''), nc_name = Some (JStr (ustr ''calculator'')),
        nc_args = JObj [(ustr ''expression'', JStr (ustr ''1+1''))]\<rparr>,
      \<lparr>nc_id = JStr (ustr ''calculator''), nc_name = Some (JStr (ustr ''calculator'')),
        nc_args = JObj [(ustr ''expression'', JStr (ustr ''2+2''))]\<rparr>]"
  by (simp add: normalizeCalls_def normalizeCall_def stepCalls_def callsStep_def
      parsedCall_def orElse_def truthy_def coalesce_def nullish_def List.enumerate_eq_zip
      Let_def ustr_def upt_rec)

lemma readable_calculatorRegistry: "readable calculatorRegistry"
  by (auto simp: readable_def calculatorRegistry_def buildRegistry_def List.map_filter_def
      echoTool_def split: if_splits)

text \<open>
  C4.  The planner text
  \<open>{"tool_calls":[{"name":"calculator",...},{"name":"calculator",...}]}\<close> has two calls
  of one tool and no \<open>id\<close>.  \<open>tryParseToolCall\<close> gives each call its name as \<open>id\<close>
  (\<open>c?.id || name || `parsed-...`\<close>: the name is never empty there, so the generated
  text is never reached), and \<open>run\<close> keeps an \<open>id\<close> it finds.  The turn records the
  assistant turn and one tool turn per call, in order, and both calls and both tool turns
  carry the \<open>id\<close> \<open>calculator\<close>: the ids are not distinct.
\<close>

theorem same_name_calls_share_id:
  "\<exists>st' calls ts.
      handleStep intNumops defaultConfig calculatorRegistry freshId i
        (tryParseToolCall intNumops clock twoCallsText) emptyState = Some (Continue, st')
    \<and> history st' = \<lparr>turn_role = Assistant, turn_content = Some (JStr []),
                       turn_tool_calls = Some calls, turn_tool_call_id = None\<rparr> # ts
    \<and> map ref_id calls = [JStr (ustr ''calculator''), JStr (ustr ''calculator'')]
    \<and> map turn_role ts = [Tool, Tool]
    \<and> map turn_tool_call_id ts
         = [Some (JStr (ustr ''calculator'')), Some (JStr (ustr ''calculator''))]
    \<and> \<not> distinct (map ref_id calls)
    \<and> \<not> distinct (map turn_tool_call_id ts)"
proof -
  let ?step = "callsStep
        [parsedCall (Some (JStr (ustr ''calculator''))) (Some (JStr (ustr ''calculator'')))
           (JObj [(ustr ''expression'', JStr (ustr ''1+1''))]),
         parsedCall (Some (JStr (ustr ''calculator''))) (Some (JStr (ustr ''calculator'')))
           (JObj [(ustr ''expression'', JStr (ustr ''2+2''))])] :: int step"
  let ?N = "[\<lparr>nc_id = JStr (ustr ''calculator''), nc_name = Some (JStr (ustr ''calculator'')),
        nc_args = JObj [(ustr ''expression'', JStr (ustr ''1+1''))]\<rparr>,
      \<lparr>nc_id = JStr (ustr ''calculator''), nc_name = Some (JStr (ustr ''calculator'')),
        nc_args = JObj [(ustr ''expression'', JStr (ustr ''2+2''))]\<rparr>] :: int normcall list"
  have d: "tryParseToolCall intNumops clock twoCallsText = ?step" by (rule twoCallsText_decision)
  have ne: "stepCalls ?step \<noteq> []" by (simp add: stepCalls_def callsStep_def)
  have N: "normalizeCalls intNumops freshId i (stepCalls ?step) = ?N" by (rule twoCalls_normalized)
  from handleStep_calls[OF ne, of intNumops defaultConfig calculatorRegistry freshId i emptyState]
  obtain out st' ts where
    r: "handleStep intNumops defaultConfig calculatorRegistry freshId i ?step emptyState = Some (out, st')"
    and h: "history st' = history emptyState @ callsTurn intNumops ?N # ts"
    and t: "\<forall>t \<in> set ts. turn_role t = Tool \<and> turn_tool_calls t = None
            \<and> (\<exists>c \<in> set ?N. turn_tool_call_id t = Some (nc_id c))"
    and o: "out = Continue \<longrightarrow> map turn_tool_call_id ts = map (\<lambda>c. Some (nc_id c)) ?N"
    and x: "out \<noteq> Continue \<longrightarrow> (\<exists>c \<in> set ?N. \<not> isString (nc_name c)) \<or> \<not> readable calculatorRegistry"
    unfolding N by blast
  have c: "out = Continue" using x readable_calculatorRegistry by (auto simp: isString_def)
  with o have ids: "map turn_tool_call_id ts
         = [Some (JStr (ustr ''calculator'')), Some (JStr (ustr ''calculator''))]" by simp
  then have "length ts = 2" by (metis length_map length_Cons list.size(3) numeral_2_eq_2)
  with t have roles: "map turn_role ts = [Tool, Tool]"
    by (cases ts; cases "tl ts") auto
  let ?calls = "map (\<lambda>c. \<lparr>ref_id = nc_id c, ref_name = nc_name c,
                         ref_arguments = stringifyJson intNumops (nc_args c)\<rparr>) ?N"
  have hist: "history st' = \<lparr>turn_role = Assistant, turn_content = Some (JStr []),
                       turn_tool_calls = Some ?calls, turn_tool_call_id = None\<rparr> # ts"
    using h by (simp add: emptyState_def callsTurn_def)
  have refs: "map ref_id ?calls = [JStr (ustr ''calculator''), JStr (ustr ''calculator'')]"
    by simp
  have d1: "\<not> distinct (map ref_id ?calls)" unfolding refs by simp
  have d2: "\<not> distinct (map turn_tool_call_id ts)" unfolding ids by simp
  have r': "handleStep intNumops defaultConfig calculatorRegistry freshId i
        (tryParseToolCall intNumops clock twoCallsText) emptyState = Some (Continue, st')"
    using r c unfolding d by simp
  show ?thesis
    by (rule exI[of _ st'], rule exI[of _ ?calls], rule exI[of _ ts])
       (intro conjI r' hist refs roles ids d1 d2)
qed

end
